theory Spec2Isabelle
  imports Main
begin

section \<open>Addresses\<close>

text \<open>
  The candidate engine is \<^verbatim>\<open>IceComponent::Private\<close> (icecomponent.cpp). It is driven by
  Qt signals of its child transports and by calls of the ICE agent; every handler runs to
  completion before the next one starts. The consumer of the engine's signals is taken not
  to destroy the engine from inside a signal handler, so every
  \<^verbatim>\<open>ObjectSessionWatcher::isValid()\<close> test of the source succeeds.
  A failed \<^verbatim>\<open>Q_ASSERT\<close> is an error value.
\<close>

datatype NetworkLayerProtocol = IPv4Protocol | IPv6Protocol | UnknownNetworkLayerProtocol

record QHostAddress =
  ip :: nat
  protocol :: NetworkLayerProtocol
  scopeId :: string

definition nullAddress :: QHostAddress where
  "nullAddress = \<lparr>ip = 0, protocol = UnknownNetworkLayerProtocol, scopeId = []\<rparr>"

definition isNull :: "QHostAddress \<Rightarrow> bool" where
  "isNull a = (protocol a = UnknownNetworkLayerProtocol)"

definition setScopeId :: "string \<Rightarrow> QHostAddress \<Rightarrow> QHostAddress" where
  "setScopeId z a = a\<lparr>scopeId := z\<rparr>"

text \<open>
  Modelled from the spec: \<^verbatim>\<open>operator==\<close> of host addresses (Qt, not in src). The spec
  says that equality is bitwise on the ip and that the IPv6 zone id is stripped before
  comparison.
\<close>

definition ha_eq :: "QHostAddress \<Rightarrow> QHostAddress \<Rightarrow> bool" where
  "ha_eq a b = (protocol a = protocol b \<and> ip a = ip b)"

record TransportAddress =
  addr :: QHostAddress
  port :: int

definition invalidAddress :: TransportAddress where
  "invalidAddress = \<lparr>addr = nullAddress, port = - 1\<rparr>"

text \<open>
  Modelled from the spec: \<^verbatim>\<open>TransportAddress::isValid\<close> and
  \<^verbatim>\<open>TransportAddress::operator==\<close> (transportaddress.h is not in src). The spec gives a
  transport address the invariant that its port lies in 1..65535, and compares the ip as
  above and the port as an integer.
\<close>

definition isValid :: "TransportAddress \<Rightarrow> bool" where
  "isValid a = (1 \<le> port a \<and> port a \<le> 65535)"

definition ta_eq :: "TransportAddress \<Rightarrow> TransportAddress \<Rightarrow> bool" where
  "ta_eq a b = (ha_eq (addr a) (addr b) \<and> port a = port b)"

section \<open>Configuration and candidates\<close>

record LocalAddress =
  la_addr :: QHostAddress
  la_network :: int
  la_isVpn :: bool

record ExternalAddress =
  ea_base :: LocalAddress
  ea_addr :: QHostAddress
  portBase :: int

record Config =
  localAddrs :: "LocalAddress list"
  extAddrs :: "ExternalAddress list"
  stunBindAddr :: TransportAddress
  stunRelayUdpAddr :: TransportAddress
  stunRelayUdpUser :: string
  stunRelayUdpPass :: string
  stunRelayTcpAddr :: TransportAddress
  stunRelayTcpUser :: string
  stunRelayTcpPass :: string

definition emptyConfig :: Config where
  "emptyConfig = \<lparr>localAddrs = [], extAddrs = [],
     stunBindAddr = invalidAddress,
     stunRelayUdpAddr = invalidAddress, stunRelayUdpUser = [], stunRelayUdpPass = [],
     stunRelayTcpAddr = invalidAddress, stunRelayTcpUser = [], stunRelayTcpPass = []\<rparr>"

datatype CandidateType = HostType | PeerReflexiveType | ServerReflexiveType | RelayedType

datatype SocketType = UdpSocket | TcpSocket

text \<open>
  The foundation string is computed by \<^verbatim>\<open>IceAgent::foundation\<close>, which is not part of
  the engine; a foundation is kept as the arguments of that call.
\<close>

datatype Foundation =
    NoFoundation
  | Foundation2 CandidateType QHostAddress
  | Foundation4 CandidateType QHostAddress QHostAddress SocketType

record CandidateInfo =
  ci_addr :: TransportAddress
  base :: TransportAddress
  related :: TransportAddress
  ci_type :: CandidateType
  priority :: int
  foundation :: Foundation
  componentId :: int
  ci_network :: int

text \<open>
  A transport is a shared pointer in the source; here it is a handle, with one
  constructor for each of the two concrete classes.
\<close>

datatype IceTransportRef = LocalSock nat | TurnSock nat

record Candidate =
  c_id :: int
  info :: CandidateInfo
  iceTransport :: IceTransportRef
  path :: int

section \<open>Transports\<close>

record QUdpSocket =
  qs_localAddress :: QHostAddress
  qs_localPort :: int

text \<open>
  Modelled from the spec: the part of \<^verbatim>\<open>IceLocalTransport\<close> (icelocaltransport.cpp is not
  in src; its interface is icelocaltransport.h) that the engine reads. A transport
  started on an already bound socket reports that socket's address as its local
  address; the reflexive and relayed addresses and the two liveness flags are those the
  transport shows when it signals \<^verbatim>\<open>addressesChanged\<close>.
\<close>

record IceLocalTransport =
  localAddress :: TransportAddress
  stunBindServiceAddress :: TransportAddress
  stunRelayServiceAddress :: TransportAddress
  serverReflexiveAddress :: TransportAddress
  reflexiveAddressSource :: QHostAddress
  relayedAddress :: TransportAddress
  isStunAlive :: bool
  isTurnAlive :: bool

definition newIceLocalTransport :: IceLocalTransport where
  "newIceLocalTransport = \<lparr>localAddress = invalidAddress,
     stunBindServiceAddress = invalidAddress, stunRelayServiceAddress = invalidAddress,
     serverReflexiveAddress = invalidAddress, reflexiveAddressSource = nullAddress,
     relayedAddress = invalidAddress, isStunAlive = False, isTurnAlive = False\<rparr>"

record LocalTransport =
  qsock :: QUdpSocket
  lt_addr :: QHostAddress
  sock :: nat
  sock_obj :: IceLocalTransport
  lt_network :: int
  lt_isVpn :: bool
  started :: bool
  stun_started :: bool
  stun_finished :: bool
  turn_finished :: bool
  extAddr :: QHostAddress
  ext_finished :: bool
  borrowed :: bool

text \<open>
  Modelled from the spec: the part of \<^verbatim>\<open>IceTurnTransport\<close> (iceturntransport.cpp is not
  in src) that the engine reads; \<^verbatim>\<open>isStarted\<close> holds once the transport has signalled
  \<^verbatim>\<open>started\<close>.
\<close>

record IceTurnTransport =
  tt_handle :: nat
  isStarted :: bool
  tt_relayedAddress :: TransportAddress
  tt_reflexiveAddress :: TransportAddress

section \<open>Signals, calls on child objects, deferred calls\<close>

datatype effect =
    Sig_candidateAdded Candidate
  | Sig_candidateRemoved Candidate
  | Sig_localFinished
  | Sig_gatheringComplete
  | Sig_stopped
  | Sig_debugLine string
  | Call_start nat QUdpSocket
  | Call_stunStart nat
  | Call_stop IceTransportRef
  | Call_turnStart nat TransportAddress
  | Call_addChannelPeer IceTransportRef TransportAddress
  | Call_returnSockets QUdpSocket
  | Socket_taken QUdpSocket

datatype deferred = Defer_localFinished | Defer_tryGatheringComplete | Defer_postStop

datatype error =
    Assert_not_stopping
  | Assert_transport_found
  | Assert_addrAt
  | Assert_typePref
  | Assert_localPref
  | Assert_componentId
  | Assert_candidate_found
  | Assert_baseCand_found

section \<open>The engine's state\<close>

text \<open>
  The fields of \<^verbatim>\<open>IceComponent::Private\<close>. \<open>deferred_calls\<close> is the queue of
  \<^verbatim>\<open>sess.defer\<close>, \<open>ext_timers\<close> counts the pending zero-delay timers of \<^verbatim>\<open>update\<close>,
  and \<open>next_handle\<close> numbers the transport objects the engine creates. The client
  software name, the proxy and the debug level are handed through to the transports
  and are left out.
\<close>

record Private =
  component_id :: int
  pending :: Config
  config :: Config
  stopping :: bool
  udpTransports :: "LocalTransport list"
  tcpTurn :: "IceTurnTransport option"
  localCandidates :: "Candidate list"
  channelPeers :: "int \<rightharpoonup> TransportAddress list"
  useLocal :: bool
  useStunBind :: bool
  useStunRelayUdp :: bool
  useStunRelayTcp :: bool
  localFinished :: bool
  gatheringComplete :: bool
  deferred_calls :: "deferred list"
  ext_timers :: nat
  next_handle :: nat

definition newPrivate :: "int \<Rightarrow> Private" where
  "newPrivate i = \<lparr>component_id = i, pending = emptyConfig, config = emptyConfig,
     stopping = False, udpTransports = [], tcpTurn = None, localCandidates = [],
     channelPeers = Map.empty, useLocal = True, useStunBind = True,
     useStunRelayUdp = True, useStunRelayTcp = True, localFinished = False,
     gatheringComplete = False, deferred_calls = [], ext_timers = 0, next_handle = 0\<rparr>"

section \<open>Priorities\<close>

definition calc_priority :: "int \<Rightarrow> int \<Rightarrow> int \<Rightarrow> error + int" where
  "calc_priority typePref localPref compId =
     (if \<not> (typePref \<ge> 0 \<and> typePref \<le> 126) then Inl Assert_typePref
      else if \<not> (localPref \<ge> 0 \<and> localPref \<le> 65535) then Inl Assert_localPref
      else if \<not> (compId \<ge> 1 \<and> compId \<le> 256) then Inl Assert_componentId
      else Inr (2 ^ 24 * typePref + 2 ^ 8 * localPref + (256 - compId)))"

definition choose_default_priority :: "CandidateType \<Rightarrow> int \<Rightarrow> bool \<Rightarrow> int \<Rightarrow> error + int" where
  "choose_default_priority type localPref isVpn compId =
     (let typePref =
        (if type = HostType then (if isVpn then 0 else 126)
         else if type = PeerReflexiveType then 110
         else if type = ServerReflexiveType then 100
         else 0)
      in calc_priority typePref localPref compId)"

section \<open>Helpers of the engine\<close>

function getId_loop :: "Candidate list \<Rightarrow> int \<Rightarrow> int" where
  "getId_loop cs n = (if list_ex (\<lambda>c. c_id c = n) cs then getId_loop cs (n + 1) else n)"
  by pat_completeness auto
termination
proof (relation "measure (\<lambda>(cs, n). card {i \<in> c_id ` set cs. n \<le> i})")
  show "wf (measure (\<lambda>(cs, n). card {i \<in> c_id ` set cs. n \<le> i}))" by simp
next
  fix cs :: "Candidate list" and n :: int
  assume ex: "list_ex (\<lambda>c. c_id c = n) cs"
  have fin: "finite {i \<in> c_id ` set cs. n \<le> i}" by simp
  have sub: "{i \<in> c_id ` set cs. n + 1 \<le> i} \<subset> {i \<in> c_id ` set cs. n \<le> i}"
  proof
    show "{i \<in> c_id ` set cs. n + 1 \<le> i} \<subseteq> {i \<in> c_id ` set cs. n \<le> i}" by auto
    from ex have "n \<in> {i \<in> c_id ` set cs. n \<le> i}" by (auto simp: list_ex_iff)
    moreover have "n \<notin> {i \<in> c_id ` set cs. n + 1 \<le> i}" by simp
    ultimately show "{i \<in> c_id ` set cs. n + 1 \<le> i} \<noteq> {i \<in> c_id ` set cs. n \<le> i}" by blast
  qed
  show "((cs, n + 1), (cs, n)) \<in> measure (\<lambda>(cs, n). card {i \<in> c_id ` set cs. n \<le> i})"
    using psubset_card_mono [OF fin sub] by simp
qed

declare getId_loop.simps [simp del]

definition getId :: "Private \<Rightarrow> int" where
  "getId s = getId_loop (localCandidates s) 0"

fun findLocalAddr_loop :: "LocalAddress list \<Rightarrow> QHostAddress \<Rightarrow> int \<Rightarrow> int" where
  "findLocalAddr_loop [] a n = - 1"
| "findLocalAddr_loop (la # las) a n =
     (if ha_eq (la_addr la) a then n else findLocalAddr_loop las a (n + 1))"

definition findLocalAddr :: "Private \<Rightarrow> QHostAddress \<Rightarrow> int" where
  "findLocalAddr s a = findLocalAddr_loop (localAddrs (config s)) a 0"

text \<open>The position of the first transport whose \<^verbatim>\<open>sock\<close> is the sender of a signal.\<close>

fun find_transport :: "LocalTransport list \<Rightarrow> nat \<Rightarrow> nat option" where
  "find_transport [] h = None"
| "find_transport (t # ts) h =
     (if sock t = h then Some 0 else map_option Suc (find_transport ts h))"

definition redundant_to :: "Candidate \<Rightarrow> Candidate \<Rightarrow> bool" where
  "redundant_to c cc =
     (ta_eq (ci_addr (info cc)) (ci_addr (info c)) \<and> ta_eq (base (info cc)) (base (info c))
      \<and> priority (info cc) \<ge> priority (info c))"

definition storeLocalNotReduntantCandidate :: "Candidate \<Rightarrow> Private \<Rightarrow> Private \<times> effect list" where
  "storeLocalNotReduntantCandidate c s =
     (if list_ex (redundant_to c) (localCandidates s) then (s, [])
      else (s\<lparr>localCandidates := localCandidates s @ [c]\<rparr>, [Sig_candidateAdded c]))"

definition ensureExt :: "nat \<Rightarrow> int \<Rightarrow> Private \<Rightarrow> error + Private \<times> effect list" where
  "ensureExt k addrAt s =
     (let lt = udpTransports s ! k in
      if \<not> isNull (extAddr lt) \<and> \<not> ext_finished lt then
        (case choose_default_priority ServerReflexiveType (65535 - addrAt) (lt_isVpn lt)
                (component_id s) of
           Inl e \<Rightarrow> Inl e
         | Inr p \<Rightarrow>
             let ci = \<lparr>ci_addr = \<lparr>addr = extAddr lt, port = port (localAddress (sock_obj lt))\<rparr>,
                       base = localAddress (sock_obj lt),
                       related = localAddress (sock_obj lt),
                       ci_type = ServerReflexiveType,
                       priority = p,
                       foundation = Foundation2 ServerReflexiveType
                                      (addr (localAddress (sock_obj lt))),
                       componentId = component_id s,
                       ci_network = lt_network lt\<rparr>;
                 c = \<lparr>c_id = getId s, info = ci, iceTransport = LocalSock (sock lt), path = 0\<rparr>;
                 s1 = s\<lparr>udpTransports := (udpTransports s)[k := lt\<lparr>ext_finished := True\<rparr>]\<rparr>
             in Inr (storeLocalNotReduntantCandidate c s1))
      else Inr (s, []))"

fun removeLocalCandidates_loop ::
  "IceTransportRef \<Rightarrow> Candidate list \<Rightarrow> (int \<rightharpoonup> TransportAddress list)
     \<Rightarrow> Candidate list \<times> (int \<rightharpoonup> TransportAddress list) \<times> effect list" where
  "removeLocalCandidates_loop r [] ch = ([], ch, [])"
| "removeLocalCandidates_loop r (c # cs) ch =
     (if iceTransport c = r then
        (case removeLocalCandidates_loop r cs (ch(c_id c := None)) of
           (cs', ch', ev) \<Rightarrow> (cs', ch', Sig_candidateRemoved c # ev))
      else
        (case removeLocalCandidates_loop r cs ch of
           (cs', ch', ev) \<Rightarrow> (c # cs', ch', ev)))"

definition removeLocalCandidates :: "IceTransportRef \<Rightarrow> Private \<Rightarrow> Private \<times> effect list" where
  "removeLocalCandidates r s =
     (case removeLocalCandidates_loop r (localCandidates s) (channelPeers s) of
        (cs', ch', ev) \<Rightarrow> (s\<lparr>localCandidates := cs', channelPeers := ch'\<rparr>, ev))"

definition allStopped :: "Private \<Rightarrow> bool" where
  "allStopped s = (udpTransports s = [] \<and> tcpTurn s = None)"

definition postStop :: "Private \<Rightarrow> Private \<times> effect list" where
  "postStop s = (s\<lparr>stopping := False\<rparr>, [Sig_stopped])"

definition tryStopped :: "Private \<Rightarrow> Private \<times> effect list" where
  "tryStopped s = (if allStopped s then postStop s else (s, []))"

definition checkFinished :: "LocalTransport \<Rightarrow> bool" where
  "checkFinished lt =
     (started lt
      \<and> (\<not> isValid (stunBindServiceAddress (sock_obj lt)) \<or> stun_finished lt)
      \<and> (\<not> isValid (stunRelayServiceAddress (sock_obj lt)) \<or> turn_finished lt))"

definition tryGatheringComplete :: "Private \<Rightarrow> Private \<times> effect list" where
  "tryGatheringComplete s =
     (if gatheringComplete s \<or> (case tcpTurn s of None \<Rightarrow> False | Some t \<Rightarrow> \<not> isStarted t)
      then (s, [])
      else if list_all checkFinished (udpTransports s)
      then (s\<lparr>gatheringComplete := True\<rparr>, [Sig_gatheringComplete])
      else (s, []))"

text \<open>
  \<^verbatim>\<open>eraseLocalTransport\<close> for the transport at position \<open>k\<close>; it returns true in the
  source whenever the engine outlives the removal, which is the case here.
\<close>

definition eraseLocalTransport :: "nat \<Rightarrow> Private \<Rightarrow> Private \<times> effect list" where
  "eraseLocalTransport k s =
     (let lt = udpTransports s ! k;
          (s1, ev) = removeLocalCandidates (LocalSock (sock lt)) s
      in (s1\<lparr>udpTransports := take k (udpTransports s1) @ drop (Suc k) (udpTransports s1)\<rparr>,
          Sig_debugLine ''Stopping local transport: '' # ev
            @ (if borrowed lt then [Call_returnSockets (qsock lt)] else [])))"


section \<open>Sequencing of fallible steps\<close>

type_synonym result = "error + Private \<times> effect list"

definition then_do :: "result \<Rightarrow> (Private \<Rightarrow> result) \<Rightarrow> result" where
  "then_do r f =
     (case r of
        Inl e \<Rightarrow> Inl e
      | Inr (s, ev) \<Rightarrow> (case f s of Inl e \<Rightarrow> Inl e | Inr (s', ev') \<Rightarrow> Inr (s', ev @ ev')))"

definition upd_transport :: "nat \<Rightarrow> (LocalTransport \<Rightarrow> LocalTransport) \<Rightarrow> Private \<Rightarrow> Private" where
  "upd_transport k f s = s\<lparr>udpTransports := (udpTransports s)[k := f (udpTransports s ! k)]\<rparr>"

section \<open>update\<close>

fun takeFromSocketList :: "QUdpSocket list \<Rightarrow> QHostAddress \<Rightarrow> QUdpSocket option \<times> QUdpSocket list" where
  "takeFromSocketList [] a = (None, [])"
| "takeFromSocketList (q # qs) a =
     (if ha_eq (qs_localAddress q) a then (Some q, qs)
      else (case takeFromSocketList qs a of (r, qs') \<Rightarrow> (r, q # qs')))"

definition createLocalTransport :: "nat \<Rightarrow> QUdpSocket \<Rightarrow> LocalAddress \<Rightarrow> LocalTransport" where
  "createLocalTransport h socket la =
     \<lparr>qsock = socket, lt_addr = la_addr la, sock = h, sock_obj = newIceLocalTransport,
      lt_network = la_network la, lt_isVpn = la_isVpn la, started = False,
      stun_started = False, stun_finished = False, turn_finished = False,
      extAddr = nullAddress, ext_finished = False, borrowed = False\<rparr>"

text \<open>
  The services set on a new transport, and \<^verbatim>\<open>start(qsock)\<close>, after which the transport
  reports the socket's address.
\<close>

definition setup_sock :: "Private \<Rightarrow> LocalTransport \<Rightarrow> LocalTransport" where
  "setup_sock s lt =
     (let o1 = sock_obj lt;
          o2 = (if protocol (lt_addr lt) \<noteq> IPv6Protocol
                   \<and> useStunBind s \<and> isValid (stunBindAddr (config s))
                then o1\<lparr>stunBindServiceAddress := stunBindAddr (config s)\<rparr> else o1);
          o3 = (if protocol (lt_addr lt) \<noteq> IPv6Protocol
                   \<and> useStunRelayUdp s \<and> isValid (stunRelayUdpAddr (config s))
                   \<and> stunRelayUdpUser (config s) \<noteq> []
                then o2\<lparr>stunRelayServiceAddress := stunRelayUdpAddr (config s)\<rparr> else o2)
      in lt\<lparr>sock_obj := o3\<lparr>localAddress :=
               \<lparr>addr = qs_localAddress (qsock lt), port = qs_localPort (qsock lt)\<rparr>\<rparr>\<rparr>)"

text \<open>
  One turn of the loop over the pending local addresses. \<open>bind\<close> is the outcome of
  binding a new socket to an address on a random port: the port, or \<open>None\<close> when
  binding fails. The caller's socket list is returned as the loop leaves it.
\<close>

definition update_addr ::
  "(QHostAddress \<Rightarrow> int option) \<Rightarrow> LocalAddress \<Rightarrow> QUdpSocket list option \<Rightarrow> Private
     \<Rightarrow> Private \<times> effect list \<times> QUdpSocket list option" where
  "update_addr bind la socketList s =
     (if findLocalAddr s (la_addr la) \<noteq> - 1 then (s, [], socketList)
      else
        let (taken, socketList') =
              (case socketList of
                 None \<Rightarrow> (None, None)
               | Some l \<Rightarrow>
                   if useLocal s
                   then (case takeFromSocketList l (la_addr la) of (r, l') \<Rightarrow> (r, Some l'))
                   else (None, Some l));
            borrowedSocket = (taken \<noteq> None);
            bound = (case taken of
                       Some q \<Rightarrow> Some q
                     | None \<Rightarrow> map_option (\<lambda>p. \<lparr>qs_localAddress = la_addr la, qs_localPort = p\<rparr>)
                                 (bind (la_addr la)))
        in case bound of
             None \<Rightarrow> (s, [Sig_debugLine ''Warning: unable to bind to random port.''], socketList')
           | Some q \<Rightarrow>
               let lt = setup_sock s
                          ((createLocalTransport (next_handle s) q la)\<lparr>borrowed := borrowedSocket\<rparr>)
               in (s\<lparr>config := (config s)\<lparr>localAddrs := localAddrs (config s) @ [la]\<rparr>,
                     udpTransports := udpTransports s @ [lt],
                     next_handle := Suc (next_handle s)\<rparr>,
                   (case taken of Some t \<Rightarrow> [Socket_taken t] | None \<Rightarrow> [])
                     @ [Call_start (sock lt) q, Sig_debugLine ''starting transport ''],
                   socketList'))"

fun update_loop ::
  "(QHostAddress \<Rightarrow> int option) \<Rightarrow> LocalAddress list \<Rightarrow> QUdpSocket list option \<Rightarrow> Private
     \<Rightarrow> Private \<times> effect list" where
  "update_loop bind [] socketList s = (s, [])"
| "update_loop bind (la # las) socketList s =
     (case update_addr bind la socketList s of
        (s1, ev1, socketList') \<Rightarrow>
          (case update_loop bind las socketList' s1 of (s2, ev2) \<Rightarrow> (s2, ev1 @ ev2)))"

definition ext_matches :: "TransportAddress \<Rightarrow> ExternalAddress \<Rightarrow> bool" where
  "ext_matches laddr ea =
     (ha_eq (la_addr (ea_base ea)) (addr laddr) \<and> (portBase ea = - 1 \<or> portBase ea = port laddr))"

definition assign_extAddr :: "ExternalAddress list \<Rightarrow> LocalTransport \<Rightarrow> LocalTransport" where
  "assign_extAddr eas lt =
     (if \<not> isNull (extAddr lt) then lt
      else if protocol (addr (localAddress (sock_obj lt))) = IPv6Protocol then lt
      else (case find (ext_matches (localAddress (sock_obj lt))) eas of
              None \<Rightarrow> lt
            | Some ea \<Rightarrow> lt\<lparr>extAddr := ea_addr ea\<rparr>))"

definition needs_doExt :: "ExternalAddress list \<Rightarrow> LocalTransport \<Rightarrow> bool" where
  "needs_doExt eas lt =
     (isNull (extAddr lt) \<and> protocol (addr (localAddress (sock_obj lt))) \<noteq> IPv6Protocol
      \<and> find (ext_matches (localAddress (sock_obj lt))) eas \<noteq> None \<and> started lt)"

definition update_stun :: "Private \<Rightarrow> Private" where
  "update_stun s =
     (if (isValid (stunBindAddr (pending s)) \<and> \<not> isValid (stunBindAddr (config s)))
         \<or> (isValid (stunRelayUdpAddr (pending s)) \<and> \<not> isValid (stunRelayUdpAddr (config s)))
         \<or> (isValid (stunRelayTcpAddr (pending s)) \<and> \<not> isValid (stunRelayTcpAddr (config s)))
      then s\<lparr>config := (config s)\<lparr>
             stunBindAddr := stunBindAddr (pending s),
             stunRelayUdpAddr := stunRelayUdpAddr (pending s),
             stunRelayUdpUser := stunRelayUdpUser (pending s),
             stunRelayUdpPass := stunRelayUdpPass (pending s),
             stunRelayTcpAddr := stunRelayTcpAddr (pending s),
             stunRelayTcpUser := stunRelayTcpUser (pending s),
             stunRelayTcpPass := stunRelayTcpPass (pending s)\<rparr>\<rparr>
      else s)"

definition update_local ::
  "(QHostAddress \<Rightarrow> int option) \<Rightarrow> QUdpSocket list option \<Rightarrow> Private \<Rightarrow> Private \<times> effect list" where
  "update_local bind socketList s =
     (if localAddrs (pending s) \<noteq> [] \<and> localAddrs (config s) = []
      then update_loop bind (localAddrs (pending s)) socketList s
      else (s, []))"

definition update_ext :: "Private \<Rightarrow> Private" where
  "update_ext s =
     (if extAddrs (pending s) \<noteq> [] \<and> extAddrs (config s) = [] then
        let eas = extAddrs (pending s);
            need_doExt = list_ex (needs_doExt eas) (udpTransports s)
        in s\<lparr>config := (config s)\<lparr>extAddrs := eas\<rparr>,
             udpTransports := map (assign_extAddr eas) (udpTransports s),
             ext_timers := (if need_doExt then Suc (ext_timers s) else ext_timers s)\<rparr>
      else s)"

definition update_tcpTurn :: "Private \<Rightarrow> Private \<times> effect list" where
  "update_tcpTurn s =
     (if useStunRelayTcp s \<and> isValid (stunRelayTcpAddr (config s))
         \<and> stunRelayTcpUser (config s) \<noteq> [] \<and> tcpTurn s = None
      then (s\<lparr>tcpTurn := Some \<lparr>tt_handle = next_handle s, isStarted = False,
                               tt_relayedAddress = invalidAddress,
                               tt_reflexiveAddress = invalidAddress\<rparr>,
              next_handle := Suc (next_handle s)\<rparr>,
            [Call_turnStart (next_handle s) (stunRelayTcpAddr (config s)),
             Sig_debugLine ''starting TURN transport with server ''])
      else (s, []))"

definition update_finish :: "Private \<Rightarrow> Private" where
  "update_finish s =
     (let s1 = (if udpTransports s = [] \<and> \<not> localFinished s
                then s\<lparr>localFinished := True,
                       deferred_calls := deferred_calls s @ [Defer_localFinished]\<rparr>
                else s)
      in s1\<lparr>deferred_calls := deferred_calls s1 @ [Defer_tryGatheringComplete]\<rparr>)"

definition update :: "(QHostAddress \<Rightarrow> int option) \<Rightarrow> QUdpSocket list option \<Rightarrow> Private \<Rightarrow> result" where
  "update bind socketList s =
     (if stopping s then Inl Assert_not_stopping
      else
        let (s1, ev1) = update_local bind socketList (update_stun s);
            (s2, ev2) = update_tcpTurn (update_ext s1)
        in Inr (update_finish s2, ev1 @ ev2))"

text \<open>The zero-delay timer that \<^verbatim>\<open>update\<close> arms when a started transport got an external address.\<close>

fun doExt_loop :: "nat list \<Rightarrow> Private \<Rightarrow> result" where
  "doExt_loop [] s = Inr (s, [])"
| "doExt_loop (k # ks) s =
     (if started (udpTransports s ! k) then
        let addrAt = findLocalAddr s (lt_addr (udpTransports s ! k)) in
        if addrAt = - 1 then Inl Assert_addrAt
        else then_do (ensureExt k addrAt s) (doExt_loop ks)
      else doExt_loop ks s)"

definition doExt_timer :: "Private \<Rightarrow> result" where
  "doExt_timer s =
     (if ext_timers s = 0 then Inr (s, [])
      else
        let s1 = s\<lparr>ext_timers := ext_timers s - 1\<rparr> in
        if stopping s1 then Inr (s1, [])
        else doExt_loop [0..<length (udpTransports s1)] s1)"

section \<open>stop\<close>

definition stop :: "Private \<Rightarrow> result" where
  "stop s =
     (if stopping s then Inl Assert_not_stopping
      else
        let s1 = s\<lparr>stopping := True\<rparr> in
        if allStopped s1
        then Inr (s1\<lparr>deferred_calls := deferred_calls s1 @ [Defer_postStop]\<rparr>, [])
        else Inr (s1, map (\<lambda>lt. Call_stop (LocalSock (sock lt))) (udpTransports s1)
                      @ (case tcpTurn s1 of None \<Rightarrow> [] | Some t \<Rightarrow> [Call_stop (TurnSock (tt_handle t))])))"

section \<open>Calls of the check layer\<close>

definition peerReflexivePriority :: "IceTransportRef \<Rightarrow> int \<Rightarrow> Private \<Rightarrow> error + int" where
  "peerReflexivePriority r pth s =
     (case r of
        LocalSock h \<Rightarrow>
          (case find_transport (udpTransports s) h of
             None \<Rightarrow> Inl Assert_transport_found
           | Some k \<Rightarrow>
               choose_default_priority PeerReflexiveType
                 (65535 - (if pth = 1 then int k + 512 else int k)) False (component_id s))
      | TurnSock h \<Rightarrow>
          choose_default_priority PeerReflexiveType
            (65535 - (if map_option tt_handle (tcpTurn s) = Some h then 1024 else - 1))
            False (component_id s))"

definition flagPathAsLowOverhead :: "int \<Rightarrow> TransportAddress \<Rightarrow> Private \<Rightarrow> result" where
  "flagPathAsLowOverhead i a s =
     (case find (\<lambda>c. c_id c = i) (localCandidates s) of
        None \<Rightarrow> Inl Assert_candidate_found
      | Some c \<Rightarrow>
          let addrs = (case channelPeers s (c_id c) of None \<Rightarrow> [] | Some l \<Rightarrow> l) in
          if list_ex (\<lambda>x. ta_eq x a) addrs
          then Inr (s, [])
          else Inr (s\<lparr>channelPeers := (channelPeers s)(c_id c \<mapsto> addrs @ [a])\<rparr>,
                    [Call_addChannelPeer (iceTransport c) a]))"

definition addLocalPeerReflexiveCandidate ::
  "TransportAddress \<Rightarrow> CandidateInfo \<Rightarrow> int \<Rightarrow> Private \<Rightarrow> result" where
  "addLocalPeerReflexiveCandidate a b prio s =
     (let ci = \<lparr>ci_addr = a\<lparr>addr := setScopeId [] (addr a)\<rparr>,
                base = ci_addr b,
                related = ci_addr b,
                ci_type = PeerReflexiveType,
                priority = prio,
                foundation = Foundation2 PeerReflexiveType (addr (ci_addr b)),
                componentId = componentId b,
                ci_network = ci_network b\<rparr>
      in case find (\<lambda>c. ta_eq (base (info c)) (base b) \<and> ci_type (info c) = HostType)
                (localCandidates s) of
           None \<Rightarrow> Inl Assert_baseCand_found
         | Some baseCand \<Rightarrow>
             let c = \<lparr>c_id = getId s, info = ci, iceTransport = iceTransport baseCand, path = 0\<rparr>
             in Inr (s\<lparr>localCandidates := localCandidates s @ [c]\<rparr>, [Sig_candidateAdded c]))"


section \<open>Signals of a local transport\<close>

definition lt_started_host :: "nat \<Rightarrow> int \<Rightarrow> Private \<Rightarrow> result" where
  "lt_started_host k addrAt s =
     (let lt = udpTransports s ! k in
      if useLocal s then
        (case choose_default_priority HostType (65535 - addrAt) (lt_isVpn lt) (component_id s) of
           Inl e \<Rightarrow> Inl e
         | Inr p \<Rightarrow>
             let ci = \<lparr>ci_addr = localAddress (sock_obj lt),
                       base = localAddress (sock_obj lt),
                       related = invalidAddress,
                       ci_type = HostType,
                       priority = p,
                       foundation = Foundation2 HostType (addr (localAddress (sock_obj lt))),
                       componentId = component_id s,
                       ci_network = lt_network lt\<rparr>;
                 c = \<lparr>c_id = getId s, info = ci, iceTransport = LocalSock (sock lt), path = 0\<rparr>
             in then_do (Inr (s\<lparr>localCandidates := localCandidates s @ [c]\<rparr>, [Sig_candidateAdded c]))
                  (ensureExt k addrAt))
      else Inr (s, []))"

definition lt_started_stun :: "nat \<Rightarrow> Private \<Rightarrow> result" where
  "lt_started_stun k s =
     (let lt = udpTransports s ! k in
      if \<not> stun_started lt then
        if useStunBind s
           \<and> (isValid (stunBindServiceAddress (sock_obj lt))
                \<or> isValid (stunRelayServiceAddress (sock_obj lt)))
        then Inr (upd_transport k (\<lambda>t. t\<lparr>stun_started := True\<rparr>) s, [Call_stunStart (sock lt)])
        else Inr (upd_transport k
                    (\<lambda>t. t\<lparr>stun_started := True, stun_finished := True, turn_finished := True\<rparr>) s, [])
      else Inr (s, []))"

definition lt_started_localFinished :: "Private \<Rightarrow> result" where
  "lt_started_localFinished s =
     (if \<not> localFinished s \<and> list_all started (udpTransports s)
      then Inr (s\<lparr>localFinished := True\<rparr>, [Sig_localFinished])
      else Inr (s, []))"

definition finish_stopping :: "Private \<Rightarrow> result" where
  "finish_stopping s = Inr (tryStopped s)"

definition tt_reset :: "Private \<Rightarrow> result" where
  "tt_reset s = Inr (s\<lparr>tcpTurn := None\<rparr>, [])"

definition finish_gathering :: "Private \<Rightarrow> result" where
  "finish_gathering s = Inr (tryGatheringComplete s)"

definition lt_started :: "nat \<Rightarrow> Private \<Rightarrow> result" where
  "lt_started h s =
     (case find_transport (udpTransports s) h of
        None \<Rightarrow> Inl Assert_transport_found
      | Some k \<Rightarrow>
          let s1 = upd_transport k (\<lambda>t. t\<lparr>started := True\<rparr>) s;
              addrAt = findLocalAddr s1 (lt_addr (udpTransports s1 ! k))
          in if addrAt = - 1 then Inl Assert_addrAt
             else then_do (then_do (then_do (lt_started_host k addrAt s1) (lt_started_stun k))
                             lt_started_localFinished)
                    finish_gathering)"

text \<open>
  The loop of \<^verbatim>\<open>lt_addressesChanged\<close> that hands the reflexive ip to every transport on the
  same local address that has no external address yet. \<open>la\<close> and \<open>sa\<close> are the local and
  the server reflexive address of the signalling transport, \<open>addrAt\<close> its position.
\<close>

fun assign_ext_loop :: "nat list \<Rightarrow> TransportAddress \<Rightarrow> QHostAddress \<Rightarrow> int \<Rightarrow> Private \<Rightarrow> result" where
  "assign_ext_loop [] la sa addrAt s = Inr (s, [])"
| "assign_ext_loop (i # is) la sa addrAt s =
     (let t = udpTransports s ! i in
      if isNull (extAddr t) \<and> ta_eq (localAddress (sock_obj t)) la then
        let s1 = upd_transport i (\<lambda>t. t\<lparr>extAddr := sa\<rparr>) s in
        if started t
        then then_do (ensureExt i addrAt s1) (assign_ext_loop is la sa addrAt)
        else assign_ext_loop is la sa addrAt s1
      else assign_ext_loop is la sa addrAt s)"

definition emit_srflx :: "nat \<Rightarrow> int \<Rightarrow> Private \<Rightarrow> result" where
  "emit_srflx k addrAt s =
     (let lt = udpTransports s ! k in
      case choose_default_priority ServerReflexiveType (65535 - addrAt) (lt_isVpn lt)
             (component_id s) of
        Inl e \<Rightarrow> Inl e
      | Inr p \<Rightarrow>
          let ci = \<lparr>ci_addr = serverReflexiveAddress (sock_obj lt),
                    base = localAddress (sock_obj lt),
                    related = localAddress (sock_obj lt),
                    ci_type = ServerReflexiveType,
                    priority = p,
                    foundation = Foundation4 ServerReflexiveType
                                   (addr (localAddress (sock_obj lt)))
                                   (reflexiveAddressSource (sock_obj lt)) UdpSocket,
                    componentId = component_id s,
                    ci_network = lt_network lt\<rparr>;
              c = \<lparr>c_id = getId s, info = ci, iceTransport = LocalSock (sock lt), path = 0\<rparr>
          in Inr (storeLocalNotReduntantCandidate c
                    (upd_transport k (\<lambda>t. t\<lparr>stun_finished := True\<rparr>) s)))"

definition lt_addressesChanged_stun :: "nat \<Rightarrow> int \<Rightarrow> Private \<Rightarrow> result" where
  "lt_addressesChanged_stun k addrAt s =
     (let lt = udpTransports s ! k in
      if useStunBind s \<and> isValid (serverReflexiveAddress (sock_obj lt)) \<and> \<not> stun_finished lt then
        then_do (assign_ext_loop [0..<length (udpTransports s)] (localAddress (sock_obj lt))
                   (addr (serverReflexiveAddress (sock_obj lt))) addrAt s)
          (emit_srflx k addrAt)
      else if useStunBind s \<and> \<not> isStunAlive (sock_obj lt) \<and> \<not> stun_finished lt
      then Inr (upd_transport k (\<lambda>t. t\<lparr>stun_finished := True\<rparr>) s, [])
      else Inr (s, []))"

definition lt_addressesChanged_turn :: "nat \<Rightarrow> int \<Rightarrow> Private \<Rightarrow> result" where
  "lt_addressesChanged_turn k addrAt s =
     (let lt = udpTransports s ! k in
      if isValid (relayedAddress (sock_obj lt)) \<and> \<not> turn_finished lt then
        (case choose_default_priority RelayedType (65535 - addrAt) (lt_isVpn lt) (component_id s) of
           Inl e \<Rightarrow> Inl e
         | Inr p \<Rightarrow>
             let ci = \<lparr>ci_addr = relayedAddress (sock_obj lt),
                       base = relayedAddress (sock_obj lt),
                       related = serverReflexiveAddress (sock_obj lt),
                       ci_type = RelayedType,
                       priority = p,
                       foundation = Foundation4 RelayedType (addr (relayedAddress (sock_obj lt)))
                                      (addr (stunRelayServiceAddress (sock_obj lt))) UdpSocket,
                       componentId = component_id s,
                       ci_network = lt_network lt\<rparr>;
                 c = \<lparr>c_id = getId s, info = ci, iceTransport = LocalSock (sock lt), path = 1\<rparr>
             in Inr (storeLocalNotReduntantCandidate c
                       (upd_transport k (\<lambda>t. t\<lparr>turn_finished := True\<rparr>) s)))
      else if \<not> isTurnAlive (sock_obj lt) \<and> \<not> turn_finished lt
      then Inr (upd_transport k (\<lambda>t. t\<lparr>turn_finished := True\<rparr>) s, [])
      else Inr (s, []))"

definition lt_addressesChanged :: "nat \<Rightarrow> Private \<Rightarrow> result" where
  "lt_addressesChanged h s =
     (case find_transport (udpTransports s) h of
        None \<Rightarrow> Inl Assert_transport_found
      | Some k \<Rightarrow>
          let addrAt = findLocalAddr s (lt_addr (udpTransports s ! k))
          in if addrAt = - 1 then Inl Assert_addrAt
             else then_do (then_do (lt_addressesChanged_stun k addrAt s)
                             (lt_addressesChanged_turn k addrAt))
                    finish_gathering)"

text \<open>
  The two lambdas connected to \<^verbatim>\<open>stopped\<close> and \<^verbatim>\<open>error\<close> in \<^verbatim>\<open>createLocalTransport\<close>; they
  hold the transport they were connected for, and are disconnected when it is erased.
\<close>

definition lt_stopped :: "nat \<Rightarrow> Private \<Rightarrow> result" where
  "lt_stopped h s =
     (case find_transport (udpTransports s) h of
        None \<Rightarrow> Inr (s, [])
      | Some k \<Rightarrow> then_do (Inr (eraseLocalTransport k s)) finish_stopping)"

datatype IceLocalTransport_Error = ErrorBind | ErrorStun | ErrorTurn

definition lt_error :: "nat \<Rightarrow> IceLocalTransport_Error \<Rightarrow> Private \<Rightarrow> result" where
  "lt_error h e s =
     (case find_transport (udpTransports s) h of
        None \<Rightarrow> Inr (s, [])
      | Some k \<Rightarrow>
          if e = ErrorStun
          then then_do (Inr (upd_transport k (\<lambda>t. t\<lparr>stun_finished := True\<rparr>) s, []))
                 finish_gathering
          else if e = ErrorTurn
          then then_do (Inr (upd_transport k (\<lambda>t. t\<lparr>turn_finished := True\<rparr>) s, []))
                 finish_gathering
          else then_do (Inr (eraseLocalTransport k s)) finish_gathering)"

section \<open>Signals of the TCP TURN transport\<close>

definition tt_started :: "Private \<Rightarrow> result" where
  "tt_started s =
     (case tcpTurn s of
        None \<Rightarrow> Inr (s, [])
      | Some t \<Rightarrow>
          (case choose_default_priority RelayedType (65535 - 1024) False (component_id s) of
             Inl e \<Rightarrow> Inl e
           | Inr p \<Rightarrow>
               let ci = \<lparr>ci_addr = tt_relayedAddress t,
                         base = tt_relayedAddress t,
                         related = tt_reflexiveAddress t,
                         ci_type = RelayedType,
                         priority = p,
                         foundation = Foundation4 RelayedType (addr (tt_relayedAddress t))
                                        (addr (stunRelayTcpAddr (config s))) TcpSocket,
                         componentId = component_id s,
                         ci_network = 0\<rparr>;
                   c = \<lparr>c_id = getId s, info = ci, iceTransport = TurnSock (tt_handle t), path = 0\<rparr>
               in then_do (Inr (s\<lparr>localCandidates := localCandidates s @ [c]\<rparr>, [Sig_candidateAdded c]))
                    finish_gathering))"

definition tt_stopped :: "Private \<Rightarrow> result" where
  "tt_stopped s =
     (case tcpTurn s of
        None \<Rightarrow> Inr (s, [])
      | Some t \<Rightarrow>
          then_do (then_do (Inr (removeLocalCandidates (TurnSock (tt_handle t)) s)) tt_reset)
            finish_stopping)"

definition tt_error :: "Private \<Rightarrow> result" where
  "tt_error s =
     (case tcpTurn s of
        None \<Rightarrow> Inr (s, [])
      | Some t \<Rightarrow>
          then_do (then_do (Inr (removeLocalCandidates (TurnSock (tt_handle t)) s)) tt_reset)
            finish_gathering)"

section \<open>Deferred calls\<close>

definition run_deferred :: "Private \<Rightarrow> result" where
  "run_deferred s =
     (case deferred_calls s of
        [] \<Rightarrow> Inr (s, [])
      | d # ds \<Rightarrow>
          let s1 = s\<lparr>deferred_calls := ds\<rparr> in
          (case d of
             Defer_localFinished \<Rightarrow> Inr (s1, [Sig_localFinished])
           | Defer_tryGatheringComplete \<Rightarrow> Inr (tryGatheringComplete s1)
           | Defer_postStop \<Rightarrow> Inr (postStop s1)))"

section \<open>The engine as a transition system\<close>

text \<open>
  One input is one call of the public interface, one signal of a child transport, or one
  turn of the event loop that runs a deferred call or a timer. The signals
  \<^verbatim>\<open>addressesChanged\<close> and \<^verbatim>\<open>started\<close> (of the TURN transport) come with what the transport
  shows at that moment.
\<close>

datatype input =
    SetLocalAddresses "LocalAddress list"
  | SetExternalAddresses "ExternalAddress list"
  | SetStunBindService TransportAddress
  | SetStunRelayUdpService TransportAddress string string
  | SetStunRelayTcpService TransportAddress string string
  | SetUseLocal bool
  | SetUseStunBind bool
  | SetUseStunRelayUdp bool
  | SetUseStunRelayTcp bool
  | Update "QHostAddress \<Rightarrow> int option" "QUdpSocket list option"
  | Stop
  | FlagPathAsLowOverhead int TransportAddress
  | AddLocalPeerReflexiveCandidate TransportAddress CandidateInfo int
  | LtStarted nat
  | LtStopped nat
  | LtAddressesChanged nat TransportAddress QHostAddress TransportAddress bool bool
  | LtError nat IceLocalTransport_Error
  | TtStarted TransportAddress TransportAddress
  | TtStopped
  | TtError
  | RunDeferred
  | RunTimer

definition observe_sock ::
  "nat \<Rightarrow> TransportAddress \<Rightarrow> QHostAddress \<Rightarrow> TransportAddress \<Rightarrow> bool \<Rightarrow> bool \<Rightarrow> Private \<Rightarrow> Private" where
  "observe_sock h srflx src relayed stunAlive turnAlive s =
     (case find_transport (udpTransports s) h of
        None \<Rightarrow> s
      | Some k \<Rightarrow>
          upd_transport k (\<lambda>t. t\<lparr>sock_obj := (sock_obj t)\<lparr>
            serverReflexiveAddress := srflx, reflexiveAddressSource := src,
            relayedAddress := relayed, isStunAlive := stunAlive, isTurnAlive := turnAlive\<rparr>\<rparr>) s)"

definition observe_turn :: "TransportAddress \<Rightarrow> TransportAddress \<Rightarrow> Private \<Rightarrow> Private" where
  "observe_turn relayed reflx s =
     s\<lparr>tcpTurn := map_option
         (\<lambda>t. t\<lparr>isStarted := True, tt_relayedAddress := relayed, tt_reflexiveAddress := reflx\<rparr>)
         (tcpTurn s)\<rparr>"

fun step :: "Private \<Rightarrow> input \<Rightarrow> result" where
  "step s (SetLocalAddresses l) = Inr (s\<lparr>pending := (pending s)\<lparr>localAddrs := l\<rparr>\<rparr>, [])"
| "step s (SetExternalAddresses l) = Inr (s\<lparr>pending := (pending s)\<lparr>extAddrs := l\<rparr>\<rparr>, [])"
| "step s (SetStunBindService a) = Inr (s\<lparr>pending := (pending s)\<lparr>stunBindAddr := a\<rparr>\<rparr>, [])"
| "step s (SetStunRelayUdpService a u p) =
     Inr (s\<lparr>pending := (pending s)\<lparr>stunRelayUdpAddr := a, stunRelayUdpUser := u,
                                   stunRelayUdpPass := p\<rparr>\<rparr>, [])"
| "step s (SetStunRelayTcpService a u p) =
     Inr (s\<lparr>pending := (pending s)\<lparr>stunRelayTcpAddr := a, stunRelayTcpUser := u,
                                   stunRelayTcpPass := p\<rparr>\<rparr>, [])"
| "step s (SetUseLocal b) = Inr (s\<lparr>useLocal := b\<rparr>, [])"
| "step s (SetUseStunBind b) = Inr (s\<lparr>useStunBind := b\<rparr>, [])"
| "step s (SetUseStunRelayUdp b) = Inr (s\<lparr>useStunRelayUdp := b\<rparr>, [])"
| "step s (SetUseStunRelayTcp b) = Inr (s\<lparr>useStunRelayTcp := b\<rparr>, [])"
| "step s (Update bind socketList) = update bind socketList s"
| "step s Stop = stop s"
| "step s (FlagPathAsLowOverhead i a) = flagPathAsLowOverhead i a s"
| "step s (AddLocalPeerReflexiveCandidate a b prio) = addLocalPeerReflexiveCandidate a b prio s"
| "step s (LtStarted h) = lt_started h s"
| "step s (LtStopped h) = lt_stopped h s"
| "step s (LtAddressesChanged h srflx src relayed stunAlive turnAlive) =
     lt_addressesChanged h (observe_sock h srflx src relayed stunAlive turnAlive s)"
| "step s (LtError h e) = lt_error h e s"
| "step s (TtStarted relayed reflx) = tt_started (observe_turn relayed reflx s)"
| "step s TtStopped = tt_stopped s"
| "step s TtError = tt_error s"
| "step s RunDeferred = run_deferred s"
| "step s RunTimer = doExt_timer s"

text \<open>A run of the engine: the inputs in turn; the signals and calls of all steps in order.\<close>

fun run :: "Private \<Rightarrow> input list \<Rightarrow> result" where
  "run s [] = Inr (s, [])"
| "run s (i # is) = then_do (step s i) (\<lambda>s'. run s' is)"

section \<open>Predicates and example values used in the proofs\<close>

definition sat :: "(Private \<Rightarrow> Private \<Rightarrow> effect list \<Rightarrow> bool) \<Rightarrow> Private \<Rightarrow> result \<Rightarrow> bool" where
  "sat Q s r = (\<forall>s' ev. r = Inr (s', ev) \<longrightarrow> Q s s' ev)"

definition composable :: "(Private \<Rightarrow> Private \<Rightarrow> effect list \<Rightarrow> bool) \<Rightarrow> bool" where
  "composable Q = ((\<forall>s. Q s s []) \<and>
     (\<forall>s s1 s2 ev1 ev2. Q s s1 ev1 \<longrightarrow> Q s1 s2 ev2 \<longrightarrow> Q s s2 (ev1 @ ev2)))"

definition Q_quiet :: "Private \<Rightarrow> Private \<Rightarrow> effect list \<Rightarrow> bool" where
  "Q_quiet s s' ev = (gatheringComplete s' = gatheringComplete s \<and> Sig_gatheringComplete \<notin> set ev)"

fun plain_effect :: "effect \<Rightarrow> bool" where
  "plain_effect (Sig_debugLine m) = True"
| "plain_effect (Call_start h q) = True"
| "plain_effect (Call_turnStart h a) = True"
| "plain_effect (Call_stop r) = True"
| "plain_effect (Socket_taken q) = True"
| "plain_effect e = False"

definition add_transport :: "Private \<Rightarrow> LocalAddress \<Rightarrow> QUdpSocket \<Rightarrow> bool \<Rightarrow> Private" where
  "add_transport s la q b =
     s\<lparr>config := (config s)\<lparr>localAddrs := localAddrs (config s) @ [la]\<rparr>,
       udpTransports := udpTransports s
          @ [setup_sock s ((createLocalTransport (next_handle s) q la)\<lparr>borrowed := b\<rparr>)],
       next_handle := Suc (next_handle s)\<rparr>"

definition untouched :: "Private \<Rightarrow> Private \<Rightarrow> bool" where
  "untouched s s' =
     (gatheringComplete s' = gatheringComplete s \<and> channelPeers s' = channelPeers s
      \<and> localCandidates s' = localCandidates s \<and> component_id s' = component_id s)"

definition gc_ok :: "Private \<Rightarrow> Private \<Rightarrow> effect list \<Rightarrow> bool" where
  "gc_ok s s' ev =
     ((gatheringComplete s \<longrightarrow> gatheringComplete s' \<and> Sig_gatheringComplete \<notin> set ev)
      \<and> count_list ev Sig_gatheringComplete \<le> 1
      \<and> (Sig_gatheringComplete \<in> set ev \<longrightarrow>
           gatheringComplete s' \<and> list_all checkFinished (udpTransports s')
           \<and> (\<forall>t. tcpTurn s' = Some t \<longrightarrow> isStarted t)))"

definition example_la :: LocalAddress where
  "example_la = \<lparr>la_addr = \<lparr>ip = 3232235781, protocol = IPv4Protocol, scopeId = []\<rparr>,
                  la_network = 1, la_isVpn = False\<rparr>"

definition example_socket :: QUdpSocket where
  "example_socket = \<lparr>qs_localAddress = la_addr example_la, qs_localPort = 5000\<rparr>"

definition example_started :: LocalTransport where
  "example_started =
     (createLocalTransport 0 example_socket example_la)
       \<lparr>sock_obj := newIceLocalTransport\<lparr>localAddress :=
           \<lparr>addr = la_addr example_la, port = 5000\<rparr>\<rparr>,
        started := True, stun_started := True, stun_finished := True, turn_finished := True\<rparr>"

definition example_stun_a :: TransportAddress where
  "example_stun_a = \<lparr>addr = \<lparr>ip = 1249706241, protocol = IPv4Protocol, scopeId = []\<rparr>, port = 3478\<rparr>"

definition example_stun_b :: TransportAddress where
  "example_stun_b = \<lparr>addr = \<lparr>ip = 1249706242, protocol = IPv4Protocol, scopeId = []\<rparr>, port = 3478\<rparr>"

definition example_relay :: TransportAddress where
  "example_relay = \<lparr>addr = \<lparr>ip = 3325256754, protocol = IPv4Protocol, scopeId = []\<rparr>, port = 3478\<rparr>"

definition example_host :: Candidate where
  "example_host =
     \<lparr>c_id = 0,
      info = \<lparr>ci_addr = \<lparr>addr = la_addr example_la, port = 5000\<rparr>,
               base = \<lparr>addr = la_addr example_la, port = 5000\<rparr>,
               related = invalidAddress, ci_type = HostType, priority = 2130706431,
               foundation = Foundation2 HostType (la_addr example_la),
               componentId = 1, ci_network = 1\<rparr>,
      iceTransport = LocalSock 0, path = 0\<rparr>"

definition example_peer :: TransportAddress where
  "example_peer = \<lparr>addr = \<lparr>ip = 42, protocol = IPv6Protocol, scopeId = ''eth0''\<rparr>, port = 40001\<rparr>"

definition lt_core ::
  "LocalTransport \<Rightarrow> nat \<times> QHostAddress \<times> bool \<times> TransportAddress \<times> TransportAddress \<times> TransportAddress" where
  "lt_core lt = (sock lt, lt_addr lt, lt_isVpn lt, localAddress (sock_obj lt),
                 serverReflexiveAddress (sock_obj lt), relayedAddress (sock_obj lt))"

definition same_core :: "Private \<Rightarrow> Private \<Rightarrow> bool" where
  "same_core s s' =
     (component_id s' = component_id s \<and> config s' = config s \<and> tcpTurn s' = tcpTurn s
      \<and> next_handle s' = next_handle s \<and> channelPeers s' = channelPeers s
      \<and> map lt_core (udpTransports s') = map lt_core (udpTransports s))"

definition prio_formula :: "int \<Rightarrow> int \<Rightarrow> int \<Rightarrow> int" where
  "prio_formula typePref addrAt compId = 2 ^ 24 * typePref + 2 ^ 8 * (65535 - addrAt) + (256 - compId)"

definition emitted_local :: "nat option \<Rightarrow> Private \<Rightarrow> Candidate \<Rightarrow> nat \<Rightarrow> bool" where
  "emitted_local rh s c h =
     (\<exists>(h', a, vpn, la, srflx, rel) \<in> set (map lt_core (udpTransports s)).
        h' = h
        \<and> ((ci_type (info c) = HostType
              \<and> priority (info c) = prio_formula (if vpn then 0 else 126) (findLocalAddr s a) (component_id s)
              \<and> path c = 0)
          \<or> (ci_type (info c) = ServerReflexiveType
              \<and> priority (info c) = prio_formula 100 (findLocalAddr s a) (component_id s)
              \<and> path c = 0)
          \<or> (ci_type (info c) = RelayedType \<and> rh = Some h
              \<and> priority (info c) = prio_formula 0 (findLocalAddr s a) (component_id s)
              \<and> ci_addr (info c) = rel \<and> base (info c) = rel \<and> related (info c) = srflx
              \<and> path c = 1)))"

definition emitted_turn :: "Private \<Rightarrow> Candidate \<Rightarrow> nat \<Rightarrow> bool" where
  "emitted_turn s c h =
     (\<exists>t. tcpTurn s = Some t \<and> tt_handle t = h \<and> ci_type (info c) = RelayedType
          \<and> priority (info c) = prio_formula 0 1024 (component_id s)
          \<and> ci_addr (info c) = tt_relayedAddress t \<and> base (info c) = tt_relayedAddress t
          \<and> path c = 0)"

definition emitted_ok :: "nat option \<Rightarrow> bool \<Rightarrow> Private \<Rightarrow> Candidate \<Rightarrow> bool" where
  "emitted_ok rh tb s c =
     (ci_type (info c) = PeerReflexiveType
      \<or> (case iceTransport c of
            LocalSock h \<Rightarrow> emitted_local rh s c h
          | TurnSock h \<Rightarrow> tb \<and> emitted_turn s c h))"

fun emit_effect :: "effect \<Rightarrow> bool" where
  "emit_effect (Sig_candidateAdded c) = True"
| "emit_effect Sig_localFinished = True"
| "emit_effect Sig_gatheringComplete = True"
| "emit_effect (Call_stunStart h) = True"
| "emit_effect e = False"

text \<open>
  The candidates that \<^verbatim>\<open>storeLocalNotReduntantCandidate\<close> stores: the ServerReflexive ones
  and the Relayed ones of a local transport. A list of candidates is free of redundancy
  when no such candidate in it is redundant to a candidate before it.
\<close>

definition scanned :: "Candidate \<Rightarrow> bool" where
  "scanned c = (ci_type (info c) = ServerReflexiveType \<or> (ci_type (info c) = RelayedType \<and> path c = 1))"

fun nonred :: "Candidate list \<Rightarrow> bool" where
  "nonred [] = True"
| "nonred (c # cs) = ((\<forall>d\<in>set cs. scanned d \<longrightarrow> \<not> redundant_to d c) \<and> nonred cs)"

text \<open>The candidates that a list of effects signals as added, in order.\<close>

fun added_candidates :: "effect list \<Rightarrow> Candidate list" where
  "added_candidates [] = []"
| "added_candidates (Sig_candidateAdded c # ev) = c # added_candidates ev"
| "added_candidates (e # ev) = added_candidates ev"

definition Q_emit :: "nat option \<Rightarrow> bool \<Rightarrow> Private \<Rightarrow> Private \<Rightarrow> effect list \<Rightarrow> bool" where
  "Q_emit rh tb s s' ev =
     (same_core s s'
      \<and> localCandidates s' = localCandidates s @ added_candidates ev
      \<and> (nonred (localCandidates s) \<longrightarrow> nonred (localCandidates s'))
      \<and> (\<forall>e\<in>set ev. emit_effect e)
      \<and> (\<forall>c. Sig_candidateAdded c \<in> set ev \<longrightarrow> emitted_ok rh tb s c))"

definition at_pos :: "Private \<Rightarrow> nat \<Rightarrow> int \<Rightarrow> bool" where
  "at_pos s k a = (k < length (udpTransports s) \<and> a = findLocalAddr s (lt_addr (udpTransports s ! k)))"

definition wellformed :: "Private \<Rightarrow> bool" where
  "wellformed s =
     (distinct (map sock (udpTransports s))
      \<and> (\<forall>lt\<in>set (udpTransports s).
            sock lt < next_handle s \<and> ha_eq (addr (localAddress (sock_obj lt))) (lt_addr lt)))"

definition loop_pos :: "Private \<Rightarrow> nat list \<Rightarrow> TransportAddress \<Rightarrow> int \<Rightarrow> bool" where
  "loop_pos s ks la a =
     (\<forall>i\<in>set ks. i < length (udpTransports s)
        \<and> (ta_eq (localAddress (sock_obj (udpTransports s ! i))) la
             \<longrightarrow> findLocalAddr s (lt_addr (udpTransports s ! i)) = a))"

definition wf_core :: "LocalTransport \<Rightarrow> nat \<times> QHostAddress \<times> TransportAddress" where
  "wf_core lt = (sock lt, lt_addr lt, localAddress (sock_obj lt))"

definition Q_wf :: "Private \<Rightarrow> Private \<Rightarrow> effect list \<Rightarrow> bool" where
  "Q_wf s s' ev = (wellformed s \<longrightarrow> wellformed s')"

fun removal_effect :: "effect \<Rightarrow> bool" where
  "removal_effect (Sig_candidateRemoved c) = True"
| "removal_effect Sig_gatheringComplete = True"
| "removal_effect Sig_localFinished = True"
| "removal_effect Sig_stopped = True"
| "removal_effect (Sig_debugLine m) = True"
| "removal_effect (Call_returnSockets q) = True"
| "removal_effect e = False"

definition Q_removal :: "Private \<Rightarrow> Private \<Rightarrow> effect list \<Rightarrow> bool" where
  "Q_removal s s' ev = (\<forall>e\<in>set ev. removal_effect e)"

definition example_transport :: LocalTransport where
  "example_transport =
     (createLocalTransport 0 example_socket example_la)
       \<lparr>sock_obj := newIceLocalTransport\<lparr>localAddress :=
           \<lparr>addr = la_addr example_la, port = 5000\<rparr>\<rparr>\<rparr>"

definition example_gathering :: Private where
  "example_gathering =
     (newPrivate 1)\<lparr>pending := emptyConfig\<lparr>localAddrs := [example_la]\<rparr>,
                    config := emptyConfig\<lparr>localAddrs := [example_la]\<rparr>,
                    udpTransports := [example_transport],
                    deferred_calls := [Defer_tryGatheringComplete],
                    next_handle := 1\<rparr>"

definition example_srflx_addr :: TransportAddress where
  "example_srflx_addr = \<lparr>addr = \<lparr>ip = 3405803785, protocol = IPv4Protocol, scopeId = []\<rparr>, port = 40001\<rparr>"

definition example_relayed_addr :: TransportAddress where
  "example_relayed_addr = \<lparr>addr = \<lparr>ip = 3325256754, protocol = IPv4Protocol, scopeId = []\<rparr>, port = 50000\<rparr>"

definition example_relayed :: Candidate where
  "example_relayed =
     \<lparr>c_id = 1,
      info = \<lparr>ci_addr = example_relayed_addr, base = example_relayed_addr,
               related = example_srflx_addr, ci_type = RelayedType, priority = 16777215,
               foundation = Foundation4 RelayedType (addr example_relayed_addr) nullAddress UdpSocket,
               componentId = 1, ci_network = 1\<rparr>,
      iceTransport = LocalSock 0, path = 1\<rparr>"

definition chan_ok :: "Private \<Rightarrow> Private \<Rightarrow> effect list \<Rightarrow> bool" where
  "chan_ok s s' ev =
     ((\<forall>r a. Call_addChannelPeer r a \<notin> set ev)
      \<and> (\<forall>c\<in>set (localCandidates s).
            c \<notin> set (localCandidates s') \<longrightarrow> channelPeers s' (c_id c) = None)
      \<and> (\<forall>j. channelPeers s' j \<noteq> channelPeers s j \<longrightarrow>
            channelPeers s' j = None
            \<and> (\<exists>c\<in>set (localCandidates s). c_id c = j \<and> c \<notin> set (localCandidates s'))))"

definition Q_same :: "Private \<Rightarrow> Private \<Rightarrow> effect list \<Rightarrow> bool" where
  "Q_same s s' ev =
     (channelPeers s' = channelPeers s \<and> localCandidates s' = localCandidates s
      \<and> (\<forall>e\<in>set ev. removal_effect e))"

definition example_hosted :: Private where
  "example_hosted =
     example_gathering\<lparr>udpTransports := [example_started], localCandidates := [example_host],
                        localFinished := True, gatheringComplete := True\<rparr>"

definition example_flagged :: Private where
  "example_flagged = example_hosted\<lparr>channelPeers := [0 \<mapsto> [example_peer]]\<rparr>"



definition example_ea :: ExternalAddress where
  "example_ea = \<lparr>ea_base = example_la,
                  ea_addr = \<lparr>ip = 3325256711, protocol = IPv4Protocol, scopeId = []\<rparr>,
                  portBase = - 1\<rparr>"

definition example_bind :: "QHostAddress \<Rightarrow> int option" where
  "example_bind a = Some 5000"

definition example_mapped :: Private where
  "example_mapped =
     (newPrivate 1)\<lparr>pending := emptyConfig\<lparr>localAddrs := [example_la], extAddrs := [example_ea]\<rparr>,
                    config := emptyConfig\<lparr>localAddrs := [example_la], extAddrs := [example_ea]\<rparr>,
                    udpTransports := [example_transport\<lparr>extAddr := ea_addr example_ea\<rparr>],
                    deferred_calls := [Defer_tryGatheringComplete],
                    next_handle := 1\<rparr>"

definition example_ext_srflx :: Candidate where
  "example_ext_srflx =
     \<lparr>c_id = 1,
      info = \<lparr>ci_addr = \<lparr>addr = ea_addr example_ea, port = 5000\<rparr>,
               base = \<lparr>addr = la_addr example_la, port = 5000\<rparr>,
               related = \<lparr>addr = la_addr example_la, port = 5000\<rparr>,
               ci_type = ServerReflexiveType, priority = 1694498815,
               foundation = Foundation2 ServerReflexiveType (la_addr example_la),
               componentId = 1, ci_network = 1\<rparr>,
      iceTransport = LocalSock 0, path = 0\<rparr>"




section \<open>Sequencing and frame lemmas\<close>

lemma then_do_Inr:
  "then_do r f = Inr (s', ev) \<longleftrightarrow>
     (\<exists>s1 ev1 ev2. r = Inr (s1, ev1) \<and> f s1 = Inr (s', ev2) \<and> ev = ev1 @ ev2)"
  by (auto simp: then_do_def split: sum.splits prod.splits)

lemma sat_Inl [simp]: "sat Q s (Inl e)"
  by (simp add: sat_def)

lemma sat_Inr [simp]: "sat Q s (Inr (s', ev)) \<longleftrightarrow> Q s s' ev"
  by (simp add: sat_def)

lemma sat_Inr_pair: "sat Q s (Inr p) \<longleftrightarrow> Q s (fst p) (snd p)"
  by (cases p) simp

lemma sat_then_do:
  assumes "composable Q" and "sat Q s r" and "\<And>s1. sat Q s1 (f s1)"
  shows "sat Q s (then_do r f)"
  using assms unfolding sat_def then_do_Inr composable_def by blast

lemma sat_pre:
  assumes "composable Q" and "Q s s1 []" and "sat Q s1 r"
  shows "sat Q s r"
  using assms unfolding sat_def composable_def by (metis append_Nil)

lemma sat_post:
  assumes "composable Q" and "sat Q s r" and "\<And>s1. Q s1 (g s1) []"
  shows "sat Q s (then_do r (\<lambda>s1. Inr (g s1, [])))"
  using assms by (simp add: sat_then_do)

lemma composable_quiet: "composable Q_quiet"
  by (auto simp: composable_def Q_quiet_def)

lemma upd_transport_fields [simp]:
  "component_id (upd_transport k f s) = component_id s"
  "pending (upd_transport k f s) = pending s"
  "config (upd_transport k f s) = config s"
  "stopping (upd_transport k f s) = stopping s"
  "tcpTurn (upd_transport k f s) = tcpTurn s"
  "localCandidates (upd_transport k f s) = localCandidates s"
  "channelPeers (upd_transport k f s) = channelPeers s"
  "useLocal (upd_transport k f s) = useLocal s"
  "useStunBind (upd_transport k f s) = useStunBind s"
  "useStunRelayUdp (upd_transport k f s) = useStunRelayUdp s"
  "useStunRelayTcp (upd_transport k f s) = useStunRelayTcp s"
  "localFinished (upd_transport k f s) = localFinished s"
  "gatheringComplete (upd_transport k f s) = gatheringComplete s"
  "deferred_calls (upd_transport k f s) = deferred_calls s"
  "ext_timers (upd_transport k f s) = ext_timers s"
  "next_handle (upd_transport k f s) = next_handle s"
  "udpTransports (upd_transport k f s) = (udpTransports s)[k := f (udpTransports s ! k)]"
  by (simp_all add: upd_transport_def)

lemma getId_upd_transport [simp]: "getId (upd_transport k f s) = getId s"
  by (simp add: getId_def)

lemma findLocalAddr_upd_transport [simp]: "findLocalAddr (upd_transport k f s) a = findLocalAddr s a"
  by (simp add: findLocalAddr_def)

lemma quiet_store: "sat Q_quiet s (Inr (storeLocalNotReduntantCandidate c s))"
  by (simp add: storeLocalNotReduntantCandidate_def Q_quiet_def)

lemma quiet_store_pre: "Q_quiet s s1 [] \<Longrightarrow> sat Q_quiet s (Inr (storeLocalNotReduntantCandidate c s1))"
  by (simp add: storeLocalNotReduntantCandidate_def Q_quiet_def)

lemma quiet_ensureExt: "sat Q_quiet s (ensureExt k a s)"
  unfolding ensureExt_def Let_def
  by (simp add: quiet_store_pre Q_quiet_def split: sum.splits)

lemma quiet_lt_started_host: "sat Q_quiet s (lt_started_host k a s)"
  unfolding lt_started_host_def Let_def
  by (simp add: sat_then_do [OF composable_quiet] quiet_ensureExt Q_quiet_def split: sum.splits)

lemma quiet_lt_started_stun: "sat Q_quiet s (lt_started_stun k s)"
  by (simp add: lt_started_stun_def Let_def Q_quiet_def)

lemma quiet_lt_started_localFinished: "sat Q_quiet s (lt_started_localFinished s)"
  by (simp add: lt_started_localFinished_def Q_quiet_def)

lemma quiet_assign_ext_loop: "sat Q_quiet s (assign_ext_loop ks la sa a s)"
proof (induction ks arbitrary: s)
  case Nil
  show ?case by (simp add: Q_quiet_def)
next
  case (Cons i ks)
  let ?s1 = "upd_transport i (\<lambda>t. t\<lparr>extAddr := sa\<rparr>) s"
  have q1: "sat Q_quiet s (then_do (ensureExt i a ?s1) (assign_ext_loop ks la sa a))"
    by (rule sat_pre [OF composable_quiet _ sat_then_do [OF composable_quiet quiet_ensureExt Cons.IH]]) (simp add: Q_quiet_def)
  have q2: "sat Q_quiet s (assign_ext_loop ks la sa a ?s1)"
    by (rule sat_pre [OF composable_quiet _ Cons.IH]) (simp add: Q_quiet_def)
  show ?case using q1 q2 Cons.IH [of s] by (simp add: Let_def)
qed

lemma quiet_emit_srflx: "sat Q_quiet s (emit_srflx k a s)"
  unfolding emit_srflx_def Let_def
  by (simp add: quiet_store_pre Q_quiet_def split: sum.splits)

lemma quiet_lt_addressesChanged_stun: "sat Q_quiet s (lt_addressesChanged_stun k a s)"
  unfolding lt_addressesChanged_stun_def Let_def
  by (simp add: sat_then_do [OF composable_quiet] quiet_assign_ext_loop quiet_emit_srflx Q_quiet_def
           del: assign_ext_loop.simps)

lemma quiet_lt_addressesChanged_turn: "sat Q_quiet s (lt_addressesChanged_turn k a s)"
  unfolding lt_addressesChanged_turn_def Let_def
  by (simp add: quiet_store_pre Q_quiet_def split: sum.splits)

lemma removeLocalCandidates_loop_events:
  "removeLocalCandidates_loop r cs ch = (cs', ch', ev) \<Longrightarrow> e \<in> set ev \<Longrightarrow> \<exists>c. e = Sig_candidateRemoved c"
  by (induction cs arbitrary: ch cs' ch' ev) (auto split: if_splits prod.splits)

lemma removeLocalCandidates_events:
  "removeLocalCandidates r s = (s', ev) \<Longrightarrow> e \<in> set ev \<Longrightarrow> \<exists>c. e = Sig_candidateRemoved c"
  by (auto simp: removeLocalCandidates_def split: prod.splits dest: removeLocalCandidates_loop_events)

lemma quiet_removeLocalCandidates: "sat Q_quiet s (Inr (removeLocalCandidates r s))"
proof (cases "removeLocalCandidates r s")
  case (Pair s' ev)
  have "gatheringComplete s' = gatheringComplete s"
    using Pair by (auto simp: removeLocalCandidates_def split: prod.splits)
  moreover have "Sig_gatheringComplete \<notin> set ev"
    using removeLocalCandidates_events [OF Pair] by blast
  ultimately show ?thesis using Pair by (simp add: Q_quiet_def)
qed

lemma quiet_eraseLocalTransport: "sat Q_quiet s (Inr (eraseLocalTransport k s))"
proof (cases "removeLocalCandidates (LocalSock (sock (udpTransports s ! k))) s")
  case (Pair s1 ev)
  with quiet_removeLocalCandidates [of s "LocalSock (sock (udpTransports s ! k))"]
  show ?thesis by (simp add: eraseLocalTransport_def Let_def Q_quiet_def)
qed

lemma quiet_finish_stopping: "sat Q_quiet s (finish_stopping s)"
  by (simp add: finish_stopping_def tryStopped_def postStop_def Q_quiet_def)

lemma quiet_tt_reset: "sat Q_quiet s (tt_reset s)"
  by (simp add: tt_reset_def Q_quiet_def)

lemma quiet_lt_stopped: "sat Q_quiet s (lt_stopped h s)"
  unfolding lt_stopped_def
  by (simp add: sat_then_do [OF composable_quiet] quiet_eraseLocalTransport quiet_finish_stopping
        Q_quiet_def split: option.splits)

lemma quiet_tt_stopped: "sat Q_quiet s (tt_stopped s)"
  unfolding tt_stopped_def
  by (simp add: sat_then_do [OF composable_quiet] quiet_removeLocalCandidates quiet_finish_stopping
        quiet_tt_reset Q_quiet_def split: option.splits)

lemma takeFromSocketList_Some:
  "takeFromSocketList l a = (Some q, l') \<Longrightarrow> ha_eq (qs_localAddress q) a"
  by (induction l arbitrary: l') (auto split: if_splits prod.splits)

lemma update_addr_cases:
  assumes "update_addr bind la sl s = (s', ev, sl')"
  obtains (same) "s' = s" and "\<forall>e\<in>set ev. plain_effect e"
  | (new) q b where
      "s' = add_transport s la q b"
      and "ha_eq (qs_localAddress q) (la_addr la)" and "\<forall>e\<in>set ev. plain_effect e"
proof (cases "findLocalAddr s (la_addr la) \<noteq> - 1")
  case True
  with assms same show ?thesis by (simp add: update_addr_def)
next
  case False
  have refl: "ha_eq a a" for a by (simp add: ha_eq_def)
  from False assms same new refl show ?thesis
    by (auto simp: update_addr_def Let_def add_transport_def
             split: option.splits prod.splits if_splits dest: takeFromSocketList_Some)
qed

lemma update_loop_rule:
  assumes "P s"
    and "\<And>s la q b. P s \<Longrightarrow> ha_eq (qs_localAddress q) (la_addr la) \<Longrightarrow> P (add_transport s la q b)"
    and "update_loop bind las sl s = (s', ev)"
  shows "P s' \<and> (\<forall>e\<in>set ev. plain_effect e)"
  using assms(1,3)
proof (induction las arbitrary: sl s ev)
  case Nil
  then show ?case by simp
next
  case (Cons la las)
  obtain s1 ev1 sl1 where a: "update_addr bind la sl s = (s1, ev1, sl1)"
    by (cases "update_addr bind la sl s") auto
  obtain ev2 where l: "update_loop bind las sl1 s1 = (s', ev2)" and ev: "ev = ev1 @ ev2"
    using Cons.prems(2) a by (auto split: prod.splits)
  from a have "P s1 \<and> (\<forall>e\<in>set ev1. plain_effect e)"
  proof (cases rule: update_addr_cases)
    case same
    with Cons.prems(1) show ?thesis by simp
  next
    case (new q b)
    with assms(2) [OF Cons.prems(1)] show ?thesis by simp
  qed
  with Cons.IH [OF _ l] ev show ?case by auto
qed

lemma untouched_refl [simp]: "untouched s s"
  by (simp add: untouched_def)

lemma untouched_trans: "untouched s s1 \<Longrightarrow> untouched s1 s2 \<Longrightarrow> untouched s s2"
  by (simp add: untouched_def)

lemma untouched_add_transport: "untouched s0 s \<Longrightarrow> untouched s0 (add_transport s la q b)"
  by (simp add: untouched_def add_transport_def)

lemma update_local_untouched:
  assumes "update_local bind sl s = (s', ev)"
  shows "untouched s s' \<and> (\<forall>e\<in>set ev. plain_effect e)"
proof (cases "localAddrs (pending s) \<noteq> [] \<and> localAddrs (config s) = []")
  case True
  with assms have "update_loop bind (localAddrs (pending s)) sl s = (s', ev)"
    by (simp add: update_local_def)
  from update_loop_rule [where P = "untouched s", OF _ _ this] untouched_add_transport
  show ?thesis by simp
next
  case False
  with assms show ?thesis by (auto simp: update_local_def)
qed

lemma update_untouched:
  assumes "update bind sl s = Inr (s', ev)"
  shows "untouched s s' \<and> (\<forall>e\<in>set ev. plain_effect e)"
proof -
  from assms have ns: "\<not> stopping s" by (auto simp: update_def split: if_splits)
  obtain s1 ev1 where l: "update_local bind sl (update_stun s) = (s1, ev1)"
    by (cases "update_local bind sl (update_stun s)")
  obtain s2 ev2 where t: "update_tcpTurn (update_ext s1) = (s2, ev2)"
    by (cases "update_tcpTurn (update_ext s1)")
  from assms ns l t have r: "s' = update_finish s2" "ev = ev1 @ ev2"
    by (auto simp: update_def)
  have u0: "untouched s (update_stun s)" by (simp add: untouched_def update_stun_def)
  from update_local_untouched [OF l] have u1: "untouched (update_stun s) s1"
    and e1: "\<forall>e\<in>set ev1. plain_effect e" by simp_all
  have u2: "untouched s1 (update_ext s1)" by (simp add: untouched_def update_ext_def Let_def)
  from t have u3: "untouched (update_ext s1) s2" and e2: "\<forall>e\<in>set ev2. plain_effect e"
    by (auto simp: update_tcpTurn_def untouched_def split: if_splits)
  have u4: "untouched s2 (update_finish s2)" by (simp add: untouched_def update_finish_def Let_def)
  from u0 u1 u2 u3 u4 have "untouched s s'" unfolding r by (blast intro: untouched_trans)
  with e1 e2 r show ?thesis by auto
qed

lemma count_list_0: "x \<notin> set xs \<Longrightarrow> count_list xs x = 0"
  by (induction xs) auto

lemma gc_ok_quiet: "Q_quiet s s' ev \<Longrightarrow> gc_ok s s' ev"
  by (simp add: Q_quiet_def gc_ok_def count_list_0)

lemma sat_gc_ok_quiet: "sat Q_quiet s r \<Longrightarrow> sat gc_ok s r"
  by (simp add: sat_def gc_ok_quiet)

lemma gc_ok_tryGatheringComplete:
  "tryGatheringComplete s = (s', ev) \<Longrightarrow> gc_ok s s' ev"
  by (auto simp: tryGatheringComplete_def gc_ok_def split: if_splits option.splits)

lemma sat_gc_ok_finish:
  assumes "sat Q_quiet s r"
  shows "sat gc_ok s (then_do r finish_gathering)"
  unfolding sat_def then_do_Inr
proof (intro allI impI)
  fix s' ev
  assume "\<exists>s1 ev1 ev2. r = Inr (s1, ev1) \<and> finish_gathering s1 = Inr (s', ev2) \<and> ev = ev1 @ ev2"
  then obtain s1 ev1 ev2 where r: "r = Inr (s1, ev1)"
    and f: "tryGatheringComplete s1 = (s', ev2)" and ev: "ev = ev1 @ ev2"
    by (auto simp: finish_gathering_def)
  from assms r have q: "gatheringComplete s1 = gatheringComplete s" "Sig_gatheringComplete \<notin> set ev1"
    by (simp_all add: Q_quiet_def)
  from gc_ok_tryGatheringComplete [OF f] q ev show "gc_ok s s' ev"
    by (simp add: gc_ok_def count_list_0)
qed

lemma quiet_doExt_loop: "sat Q_quiet s (doExt_loop ks s)"
proof (induction ks arbitrary: s)
  case Nil
  show ?case by (simp add: Q_quiet_def)
next
  case (Cons k ks)
  have "sat Q_quiet s (then_do (ensureExt k a s) (doExt_loop ks))" for a
    by (rule sat_then_do [OF composable_quiet quiet_ensureExt Cons.IH])
  with Cons.IH [of s] show ?case by (simp add: Let_def)
qed

lemma quiet_doExt_timer: "sat Q_quiet s (doExt_timer s)"
proof -
  have "sat Q_quiet s (doExt_loop ks (s\<lparr>ext_timers := ext_timers s - 1\<rparr>))" for ks
    by (rule sat_pre [OF composable_quiet _ quiet_doExt_loop]) (simp add: Q_quiet_def)
  then show ?thesis by (simp add: doExt_timer_def Let_def Q_quiet_def)
qed

lemma quiet_stop: "sat Q_quiet s (stop s)"
  by (auto simp: stop_def Let_def Q_quiet_def split: option.splits)

lemma quiet_flagPathAsLowOverhead: "sat Q_quiet s (flagPathAsLowOverhead i a s)"
  by (simp add: flagPathAsLowOverhead_def Let_def Q_quiet_def split: option.splits)

lemma quiet_addLocalPeerReflexiveCandidate: "sat Q_quiet s (addLocalPeerReflexiveCandidate a b p s)"
  by (simp add: addLocalPeerReflexiveCandidate_def Let_def Q_quiet_def split: option.splits)

lemma quiet_update: "sat Q_quiet s (update bind sl s)"
  unfolding sat_def
proof (intro allI impI)
  fix s' ev assume "update bind sl s = Inr (s', ev)"
  from update_untouched [OF this] have "untouched s s'" and e: "\<forall>e\<in>set ev. plain_effect e" by simp_all
  from e have "Sig_gatheringComplete \<notin> set ev" by auto
  with \<open>untouched s s'\<close> show "Q_quiet s s' ev" by (simp add: Q_quiet_def untouched_def)
qed

lemma gc_ok_lt_started: "sat gc_ok s (lt_started h s)"
proof (cases "find_transport (udpTransports s) h")
  case None
  then show ?thesis by (simp add: lt_started_def)
next
  case (Some k)
  let ?s1 = "upd_transport k (\<lambda>t. t\<lparr>started := True\<rparr>) s"
  let ?a = "findLocalAddr ?s1 (lt_addr (udpTransports ?s1 ! k))"
  have "sat Q_quiet ?s1 (then_do (then_do (lt_started_host k ?a ?s1) (lt_started_stun k)) lt_started_localFinished)"
    by (intro sat_then_do [OF composable_quiet] quiet_lt_started_host quiet_lt_started_stun
          quiet_lt_started_localFinished)
  then have "sat Q_quiet s (then_do (then_do (lt_started_host k ?a ?s1) (lt_started_stun k)) lt_started_localFinished)"
    by (rule sat_pre [OF composable_quiet, rotated]) (simp add: Q_quiet_def)
  from sat_gc_ok_finish [OF this] Some show ?thesis
    by (simp add: lt_started_def Let_def)
qed

lemma gc_ok_lt_addressesChanged: "sat gc_ok s (lt_addressesChanged h s)"
proof (cases "find_transport (udpTransports s) h")
  case None
  then show ?thesis by (simp add: lt_addressesChanged_def)
next
  case (Some k)
  let ?a = "findLocalAddr s (lt_addr (udpTransports s ! k))"
  have "sat Q_quiet s (then_do (lt_addressesChanged_stun k ?a s) (lt_addressesChanged_turn k ?a))"
    by (intro sat_then_do [OF composable_quiet] quiet_lt_addressesChanged_stun
          quiet_lt_addressesChanged_turn)
  from sat_gc_ok_finish [OF this] Some show ?thesis
    by (simp add: lt_addressesChanged_def Let_def)
qed

lemma gc_ok_lt_error: "sat gc_ok s (lt_error h e s)"
proof (cases "find_transport (udpTransports s) h")
  case None
  then show ?thesis by (simp add: lt_error_def gc_ok_def)
next
  case (Some k)
  have a: "sat gc_ok s (then_do (Inr (upd_transport k f s, [])) finish_gathering)" for f
    by (rule sat_gc_ok_finish) (simp add: Q_quiet_def)
  have b: "sat gc_ok s (then_do (Inr (eraseLocalTransport k s)) finish_gathering)"
    by (rule sat_gc_ok_finish [OF quiet_eraseLocalTransport])
  from a b Some show ?thesis by (simp add: lt_error_def)
qed

lemma gc_ok_tt_started: "sat gc_ok s (tt_started s)"
proof (cases "tcpTurn s")
  case None
  then show ?thesis by (simp add: tt_started_def gc_ok_def)
next
  case (Some t)
  have "sat gc_ok s (then_do (Inr (s\<lparr>localCandidates := localCandidates s @ [c]\<rparr>, [Sig_candidateAdded c])) finish_gathering)" for c
    by (rule sat_gc_ok_finish) (simp add: Q_quiet_def)
  with Some show ?thesis by (simp add: tt_started_def Let_def split: sum.splits)
qed

lemma gc_ok_tt_error: "sat gc_ok s (tt_error s)"
proof (cases "tcpTurn s")
  case None
  then show ?thesis by (simp add: tt_error_def gc_ok_def)
next
  case (Some t)
  have "sat Q_quiet s (then_do (Inr (removeLocalCandidates (TurnSock (tt_handle t)) s)) tt_reset)"
    by (intro sat_then_do [OF composable_quiet] quiet_removeLocalCandidates quiet_tt_reset)
  from sat_gc_ok_finish [OF this] Some show ?thesis by (simp add: tt_error_def)
qed

lemma gc_ok_run_deferred: "sat gc_ok s (run_deferred s)"
proof (cases "deferred_calls s")
  case Nil
  then show ?thesis by (simp add: run_deferred_def gc_ok_def)
next
  case (Cons d ds)
  have "gc_ok s (fst (tryGatheringComplete (s\<lparr>deferred_calls := ds\<rparr>))) (snd (tryGatheringComplete (s\<lparr>deferred_calls := ds\<rparr>)))"
    using gc_ok_tryGatheringComplete [of "s\<lparr>deferred_calls := ds\<rparr>"]
    by (cases "tryGatheringComplete (s\<lparr>deferred_calls := ds\<rparr>)") (simp add: gc_ok_def)
  with Cons show ?thesis
    by (cases d) (simp_all add: run_deferred_def Let_def sat_Inr_pair postStop_def gc_ok_def)
qed

lemma observe_sock_gatheringComplete [simp]:
  "gatheringComplete (observe_sock h srflx src relayed sa ta s) = gatheringComplete s"
  by (simp add: observe_sock_def split: option.splits)

lemma observe_turn_gatheringComplete [simp]:
  "gatheringComplete (observe_turn relayed reflx s) = gatheringComplete s"
  by (simp add: observe_turn_def)

lemma gc_ok_pre:
  "gc_ok s1 s' ev \<Longrightarrow> gatheringComplete s1 = gatheringComplete s \<Longrightarrow> gc_ok s s' ev"
  by (simp add: gc_ok_def)

lemma sat_gc_ok_pre:
  "sat gc_ok s1 r \<Longrightarrow> gatheringComplete s1 = gatheringComplete s \<Longrightarrow> sat gc_ok s r"
  unfolding sat_def by (blast intro: gc_ok_pre)

lemma gc_ok_same [simp]: "gatheringComplete s' = gatheringComplete s \<Longrightarrow> gc_ok s s' []"
  by (simp add: gc_ok_def)

lemma gc_ok_step: "sat gc_ok s (step s i)"
proof (cases i)
  case (LtAddressesChanged h srflx src relayed sa ta)
  then show ?thesis
    using sat_gc_ok_pre [OF gc_ok_lt_addressesChanged, of "observe_sock h srflx src relayed sa ta s" s h]
    by simp
next
  case (TtStarted relayed reflx)
  then show ?thesis
    using sat_gc_ok_pre [OF gc_ok_tt_started, of "observe_turn relayed reflx s" s]
    by simp
next
  case (Update bind sl)
  then show ?thesis by (simp add: sat_gc_ok_quiet quiet_update)
next
  case Stop
  then show ?thesis by (simp add: sat_gc_ok_quiet quiet_stop)
next
  case (FlagPathAsLowOverhead i a)
  then show ?thesis by (simp add: sat_gc_ok_quiet quiet_flagPathAsLowOverhead)
next
  case (AddLocalPeerReflexiveCandidate a b p)
  then show ?thesis by (simp add: sat_gc_ok_quiet quiet_addLocalPeerReflexiveCandidate)
next
  case (LtStarted h)
  then show ?thesis by (simp add: gc_ok_lt_started)
next
  case (LtStopped h)
  then show ?thesis by (simp add: sat_gc_ok_quiet quiet_lt_stopped)
next
  case (LtError h e)
  then show ?thesis by (simp add: gc_ok_lt_error)
next
  case TtStopped
  then show ?thesis by (simp add: sat_gc_ok_quiet quiet_tt_stopped)
next
  case TtError
  then show ?thesis by (simp add: gc_ok_tt_error)
next
  case RunDeferred
  then show ?thesis by (simp add: gc_ok_run_deferred)
next
  case RunTimer
  then show ?thesis by (simp add: sat_gc_ok_quiet quiet_doExt_timer)
qed simp_all

lemma run_gatheringComplete:
  "run s is = Inr (s', ev) \<Longrightarrow>
     (gatheringComplete s \<longrightarrow> gatheringComplete s' \<and> Sig_gatheringComplete \<notin> set ev)
     \<and> count_list ev Sig_gatheringComplete \<le> 1
     \<and> (Sig_gatheringComplete \<in> set ev \<longrightarrow> gatheringComplete s')"
proof (induction "is" arbitrary: s ev)
  case Nil
  then show ?case by simp
next
  case (Cons i "is")
  from Cons.prems obtain s1 ev1 ev2 where st: "step s i = Inr (s1, ev1)"
    and r: "run s1 is = Inr (s', ev2)" and ev: "ev = ev1 @ ev2"
    by (auto simp: then_do_Inr)
  from gc_ok_step [of s i] st have g: "gc_ok s s1 ev1" by (simp add: sat_def)
  note ih = Cons.IH [OF r]
  show ?case
  proof (cases "Sig_gatheringComplete \<in> set ev1")
    case True
    with g have "gatheringComplete s1" and "count_list ev1 Sig_gatheringComplete \<le> 1"
      and "\<not> gatheringComplete s"
      by (auto simp: gc_ok_def)
    with ih ev True show ?thesis by (simp add: count_list_0)
  next
    case False
    with g have "gatheringComplete s \<longrightarrow> gatheringComplete s1" by (simp add: gc_ok_def)
    with ih ev False show ?thesis by (auto simp: count_list_0)
  qed
qed

text \<open>
  C1. The signal \<^verbatim>\<open>gatheringComplete\<close> is emitted at most once in any run of the engine
  (the flag that guards it is never cleared, so also at most once between a start and a
  stop), and in the step that emits it every local transport is started, has
  \<open>stun_finished\<close> if a STUN bind service is set on it and \<open>turn_finished\<close> if a STUN
  relay service is set on it, and the TCP TURN transport, if there is one, is started.
\<close>

theorem gatheringComplete_once_and_only_when_finished:
  assumes "run s0 is = Inr (s1, ev1)" and "step s1 i = Inr (s2, ev2)"
  shows "count_list (ev1 @ ev2) Sig_gatheringComplete \<le> 1
     \<and> (Sig_gatheringComplete \<in> set ev2 \<longrightarrow>
          (\<forall>lt\<in>set (udpTransports s2).
              started lt
              \<and> (isValid (stunBindServiceAddress (sock_obj lt)) \<longrightarrow> stun_finished lt)
              \<and> (isValid (stunRelayServiceAddress (sock_obj lt)) \<longrightarrow> turn_finished lt))
          \<and> (\<forall>t. tcpTurn s2 = Some t \<longrightarrow> isStarted t))"
proof -
  from assms have "run s0 (is @ [i]) = Inr (s2, ev1 @ ev2)"
  proof (induction "is" arbitrary: s0 ev1)
    case Nil
    then show ?case by (simp add: then_do_def)
  next
    case (Cons j js)
    from Cons.prems(1) obtain sa eva evb where a: "step s0 j = Inr (sa, eva)"
      and b: "run sa js = Inr (s1, evb)" and c: "ev1 = eva @ evb"
      by (auto simp: then_do_Inr)
    from Cons.IH [OF b Cons.prems(2)] a c show ?case by (simp add: then_do_Inr)
  qed
  from run_gatheringComplete [OF this]
  have once: "count_list (ev1 @ ev2) Sig_gatheringComplete \<le> 1" by simp
  from gc_ok_step [of s1 i] assms(2) have "gc_ok s1 s2 ev2" by (simp add: sat_def)
  then have "Sig_gatheringComplete \<in> set ev2 \<longrightarrow>
      list_all checkFinished (udpTransports s2) \<and> (\<forall>t. tcpTurn s2 = Some t \<longrightarrow> isStarted t)"
    by (simp add: gc_ok_def)
  with once show ?thesis by (auto simp: list_all_iff checkFinished_def)
qed

theorem gatheringComplete_once_and_only_when_finished_witness:
  "run ((newPrivate 1)\<lparr>udpTransports := [example_started],
          deferred_calls := [Defer_tryGatheringComplete]\<rparr>) []
     = Inr ((newPrivate 1)\<lparr>udpTransports := [example_started],
          deferred_calls := [Defer_tryGatheringComplete]\<rparr>, [])
   \<and> step ((newPrivate 1)\<lparr>udpTransports := [example_started],
          deferred_calls := [Defer_tryGatheringComplete]\<rparr>) RunDeferred
     = Inr ((newPrivate 1)\<lparr>udpTransports := [example_started], deferred_calls := [],
          gatheringComplete := True\<rparr>, [Sig_gatheringComplete])
   \<and> count_list ([] @ [Sig_gatheringComplete]) Sig_gatheringComplete \<le> 1
   \<and> started example_started"
proof -
  let ?s = "(newPrivate 1)\<lparr>udpTransports := [example_started],
          deferred_calls := [Defer_tryGatheringComplete]\<rparr>"
  let ?s' = "(newPrivate 1)\<lparr>udpTransports := [example_started], deferred_calls := [],
          gatheringComplete := True\<rparr>"
  have r: "run ?s [] = Inr (?s, [])" by simp
  have st: "step ?s RunDeferred = Inr (?s', [Sig_gatheringComplete])"
    by (simp add: run_deferred_def tryGatheringComplete_def newPrivate_def checkFinished_def
          example_started_def createLocalTransport_def newIceLocalTransport_def isValid_def
          invalidAddress_def)
  from gatheringComplete_once_and_only_when_finished [OF r st] r st
  show ?thesis by simp
qed

lemmas example_defs =
  example_la_def example_socket_def example_started_def example_stun_a_def example_stun_b_def
  example_relay_def example_host_def example_peer_def

lemmas model_defs =
  newPrivate_def emptyConfig_def invalidAddress_def nullAddress_def isValid_def isNull_def
  ha_eq_def ta_eq_def then_do_def upd_transport_def
  update_def update_stun_def update_local_def update_addr_def update_ext_def
  update_tcpTurn_def update_finish_def setup_sock_def createLocalTransport_def
  newIceLocalTransport_def findLocalAddr_def getId_def
  run_deferred_def tryGatheringComplete_def checkFinished_def finish_gathering_def
  finish_stopping_def tryStopped_def allStopped_def postStop_def
  eraseLocalTransport_def removeLocalCandidates_def

text \<open>
  C4 (the code against the claim). \<^verbatim>\<open>update\<close> copies all seven STUN fields whenever one
  of the three pending addresses is valid while its active address is not. With the
  bind address promoted by a first \<^verbatim>\<open>update\<close>, setting another bind address together with
  a relay address makes the second \<^verbatim>\<open>update\<close> replace the promoted bind address.
\<close>

theorem update_replaces_promoted_stunBindAddr:
  "map_sum id (\<lambda>r. stunBindAddr (config (fst r)))
     (run (newPrivate 1) [SetStunBindService example_stun_a, Update (\<lambda>a. Some 5000) None])
     = Inr example_stun_a
   \<and> map_sum id (\<lambda>r. stunBindAddr (config (fst r)))
     (run (newPrivate 1) [SetStunBindService example_stun_a, Update (\<lambda>a. Some 5000) None,
        SetStunBindService example_stun_b, SetStunRelayUdpService example_relay ''user'' ''pass'',
        Update (\<lambda>a. Some 5000) None])
     = Inr example_stun_b
   \<and> example_stun_a \<noteq> example_stun_b"
  by (simp add: model_defs example_defs Let_def)

text \<open>
  C8 (the code against the claim). A transport that reports a bind error before it has
  started is erased and \<^verbatim>\<open>tryGatheringComplete\<close> runs on the transports that are left;
  with one local address the engine signals \<^verbatim>\<open>gatheringComplete\<close> and never signals
  \<^verbatim>\<open>localFinished\<close>.
\<close>

theorem gatheringComplete_without_localFinished:
  "map_sum id (\<lambda>r. (localFinished (fst r), snd r))
     (run (newPrivate 1) [SetLocalAddresses [example_la], Update (\<lambda>a. Some 5000) None,
        RunDeferred, LtError 0 ErrorBind])
     = Inr (False, [Call_start 0 example_socket, Sig_debugLine ''starting transport '',
                     Sig_debugLine ''Stopping local transport: '', Sig_gatheringComplete])"
  by (simp add: model_defs example_defs lt_error_def Let_def)

text \<open>
  C7 (the claim as stated fails). The first \<^verbatim>\<open>stop\<close> of a fresh engine succeeds and
  leaves the engine stopping; a second \<^verbatim>\<open>stop\<close> then fails the assertion
  \<^verbatim>\<open>Q_ASSERT(!stopping)\<close>.
\<close>

theorem stop_twice_counterexample:
  "stop (newPrivate 1)
     = Inr ((newPrivate 1)\<lparr>stopping := True, deferred_calls := [Defer_postStop]\<rparr>, [])
   \<and> stop ((newPrivate 1)\<lparr>stopping := True, deferred_calls := [Defer_postStop]\<rparr>)
     = Inl Assert_not_stopping"
  by (simp add: stop_def allStopped_def newPrivate_def)

text \<open>
  C7 (amended). \<^verbatim>\<open>stop\<close> may be called only while the engine is not stopping: in the
  stopping phase it fails its assertion. Called outside the stopping phase it succeeds
  and puts the engine into the stopping phase, so that a second \<^verbatim>\<open>stop\<close> right after
  it fails the assertion instead of repeating the first.
\<close>

theorem stop_only_when_not_stopping:
  "(stopping s \<longrightarrow> stop s = Inl Assert_not_stopping)
   \<and> (\<not> stopping s \<longrightarrow>
        (\<exists>s' ev. stop s = Inr (s', ev) \<and> stopping s' \<and> stop s' = Inl Assert_not_stopping))"
  by (simp add: stop_def Let_def)

theorem stop_only_when_not_stopping_witness:
  "\<not> stopping ((newPrivate 1)\<lparr>udpTransports := [example_started]\<rparr>)
   \<and> (\<exists>s' ev. stop ((newPrivate 1)\<lparr>udpTransports := [example_started]\<rparr>) = Inr (s', ev)
          \<and> stopping s' \<and> stop s' = Inl Assert_not_stopping)"
proof -
  have n: "\<not> stopping ((newPrivate 1)\<lparr>udpTransports := [example_started]\<rparr>)"
    by (simp add: newPrivate_def)
  with stop_only_when_not_stopping [of "(newPrivate 1)\<lparr>udpTransports := [example_started]\<rparr>"]
  show ?thesis by blast
qed

text \<open>
  C10. \<^verbatim>\<open>addLocalPeerReflexiveCandidate\<close> succeeds exactly when some live candidate of
  type Host has a base equal to the base of the given candidate info. It then appends
  and signals one PeerReflexive candidate that has the transport of the first such Host
  candidate, path 0, and the given address with the zone id removed. Without such a
  Host candidate the lookup ends past the end of the list and the assertion on it fails.
\<close>

theorem addLocalPeerReflexiveCandidate_needs_host:
  "((\<exists>h\<in>set (localCandidates s). ta_eq (base (info h)) (base b) \<and> ci_type (info h) = HostType)
      \<longrightarrow> (\<exists>h c. find (\<lambda>c. ta_eq (base (info c)) (base b) \<and> ci_type (info c) = HostType)
                    (localCandidates s) = Some h
              \<and> h \<in> set (localCandidates s)
              \<and> ta_eq (base (info h)) (base b) \<and> ci_type (info h) = HostType
              \<and> addLocalPeerReflexiveCandidate a b prio s
                   = Inr (s\<lparr>localCandidates := localCandidates s @ [c]\<rparr>, [Sig_candidateAdded c])
              \<and> ci_type (info c) = PeerReflexiveType
              \<and> iceTransport c = iceTransport h
              \<and> path c = 0
              \<and> ci_addr (info c) = a\<lparr>addr := (addr a)\<lparr>scopeId := []\<rparr>\<rparr>
              \<and> priority (info c) = prio))
   \<and> (\<not> (\<exists>h\<in>set (localCandidates s). ta_eq (base (info h)) (base b) \<and> ci_type (info h) = HostType)
      \<longrightarrow> addLocalPeerReflexiveCandidate a b prio s = Inl Assert_baseCand_found)"
proof (cases "find (\<lambda>c. ta_eq (base (info c)) (base b) \<and> ci_type (info c) = HostType)
                (localCandidates s)")
  case None
  then have "\<not> (\<exists>h\<in>set (localCandidates s). ta_eq (base (info h)) (base b) \<and> ci_type (info h) = HostType)"
    by (simp add: find_None_iff)
  with None show ?thesis by (simp add: addLocalPeerReflexiveCandidate_def Let_def)
next
  case (Some h)
  then have h: "h \<in> set (localCandidates s)" "ta_eq (base (info h)) (base b)" "ci_type (info h) = HostType"
    by (auto simp: find_Some_iff)
  with Some show ?thesis
    by (auto simp: addLocalPeerReflexiveCandidate_def Let_def setScopeId_def)
qed

theorem addLocalPeerReflexiveCandidate_needs_host_witness:
  "(\<exists>h\<in>set (localCandidates ((newPrivate 1)\<lparr>localCandidates := [example_host]\<rparr>)).
       ta_eq (base (info h)) (base (info example_host)) \<and> ci_type (info h) = HostType)
   \<and> (\<exists>c. addLocalPeerReflexiveCandidate example_peer (info example_host) 1862270975
              ((newPrivate 1)\<lparr>localCandidates := [example_host]\<rparr>)
            = Inr ((newPrivate 1)\<lparr>localCandidates := [example_host, c]\<rparr>, [Sig_candidateAdded c])
          \<and> iceTransport c = LocalSock 0 \<and> path c = 0
          \<and> scopeId (addr (ci_addr (info c))) = [])"
proof -
  let ?s = "(newPrivate 1)\<lparr>localCandidates := [example_host]\<rparr>"
  have pre: "\<exists>h\<in>set (localCandidates ?s).
       ta_eq (base (info h)) (base (info example_host)) \<and> ci_type (info h) = HostType"
    by (simp add: example_host_def ta_eq_def ha_eq_def)
  from addLocalPeerReflexiveCandidate_needs_host
         [of ?s "info example_host" example_peer 1862270975] pre
  obtain h c where "find (\<lambda>c. ta_eq (base (info c)) (base (info example_host))
                            \<and> ci_type (info c) = HostType) (localCandidates ?s) = Some h"
    and r: "addLocalPeerReflexiveCandidate example_peer (info example_host) 1862270975 ?s
          = Inr (?s\<lparr>localCandidates := localCandidates ?s @ [c]\<rparr>, [Sig_candidateAdded c])"
    and c: "iceTransport c = iceTransport h" "path c = 0"
       "ci_addr (info c) = example_peer\<lparr>addr := (addr example_peer)\<lparr>scopeId := []\<rparr>\<rparr>"
    by blast
  then have "h = example_host" by (simp add: example_host_def ta_eq_def ha_eq_def)
  with c r pre show ?thesis
    by (intro conjI exI [of _ c]) (simp_all add: example_host_def)
qed

lemma nonred_snoc:
  "nonred (cs @ [x]) \<longleftrightarrow> nonred cs \<and> (scanned x \<longrightarrow> (\<forall>c\<in>set cs. \<not> redundant_to x c))"
  by (induction cs) auto



lemma same_core_refl [simp]: "same_core s s"
  by (simp add: same_core_def)

lemma same_core_trans: "same_core s s1 \<Longrightarrow> same_core s1 s2 \<Longrightarrow> same_core s s2"
  by (simp add: same_core_def)

lemma same_core_length: "same_core s s' \<Longrightarrow> length (udpTransports s') = length (udpTransports s)"
  unfolding same_core_def by (metis length_map)

lemma same_core_nth:
  "same_core s s' \<Longrightarrow> k < length (udpTransports s) \<Longrightarrow>
     lt_core (udpTransports s' ! k) = lt_core (udpTransports s ! k)"
  unfolding same_core_def by (metis length_map nth_map)

lemma same_core_findLocalAddr: "same_core s s' \<Longrightarrow> findLocalAddr s' a = findLocalAddr s a"
  by (simp add: same_core_def findLocalAddr_def)

lemma lt_core_fields:
  "lt_core x = lt_core y \<Longrightarrow>
     sock x = sock y \<and> lt_addr x = lt_addr y \<and> lt_isVpn x = lt_isVpn y
     \<and> localAddress (sock_obj x) = localAddress (sock_obj y)
     \<and> serverReflexiveAddress (sock_obj x) = serverReflexiveAddress (sock_obj y)
     \<and> relayedAddress (sock_obj x) = relayedAddress (sock_obj y)"
  by (simp add: lt_core_def)

lemma at_pos_same_core: "same_core s s' \<Longrightarrow> at_pos s k a \<Longrightarrow> at_pos s' k a"
  using same_core_length [of s s'] same_core_nth [of s s' k] same_core_findLocalAddr [of s s']
    lt_core_fields [of "udpTransports s' ! k" "udpTransports s ! k"]
  by (simp add: at_pos_def)

lemma emitted_ok_same_core: "same_core s s' \<Longrightarrow> emitted_ok rh tb s' c = emitted_ok rh tb s c"
  using same_core_findLocalAddr [of s s']
  by (simp add: emitted_ok_def emitted_local_def emitted_turn_def same_core_def
           split: IceTransportRef.splits)

lemma added_candidates_append [simp]:
  "added_candidates (ev1 @ ev2) = added_candidates ev1 @ added_candidates ev2"
  by (induction ev1 rule: added_candidates.induct) simp_all

lemma composable_emit: "composable (Q_emit rh tb)"
  unfolding composable_def
proof (intro conjI allI impI)
  fix s show "Q_emit rh tb s s []" by (simp add: Q_emit_def)
next
  fix s s1 s2 ev1 ev2
  assume a: "Q_emit rh tb s s1 ev1" and b: "Q_emit rh tb s1 s2 ev2"
  from a b have c: "same_core s s2" by (auto simp: Q_emit_def intro: same_core_trans)
  from a have sc: "same_core s s1" by (simp add: Q_emit_def)
  from a b have l: "localCandidates s2 = localCandidates s @ added_candidates (ev1 @ ev2)"
    by (simp add: Q_emit_def)
  from a b have e: "\<forall>e\<in>set (ev1 @ ev2). emit_effect e" by (auto simp: Q_emit_def)
  from a have n1: "nonred (localCandidates s) \<longrightarrow> nonred (localCandidates s1)"
    unfolding Q_emit_def by blast
  from b have n2: "nonred (localCandidates s1) \<longrightarrow> nonred (localCandidates s2)"
    unfolding Q_emit_def by blast
  from n1 n2 have n: "nonred (localCandidates s) \<longrightarrow> nonred (localCandidates s2)"
    by blast
  from a b emitted_ok_same_core [OF sc]
  have k: "\<forall>c. Sig_candidateAdded c \<in> set (ev1 @ ev2) \<longrightarrow> emitted_ok rh tb s c"
    by (auto simp: Q_emit_def)
  from c l e k n show "Q_emit rh tb s s2 (ev1 @ ev2)" unfolding Q_emit_def by blast
qed

lemma sat_then_do_pre:
  assumes "composable Q" and "sat Q s r"
    and "\<And>s1 ev1. r = Inr (s1, ev1) \<Longrightarrow> Q s s1 ev1 \<Longrightarrow> sat Q s1 (f s1)"
  shows "sat Q s (then_do r f)"
  using assms unfolding sat_def then_do_Inr composable_def by blast

lemma same_core_upd_transport:
  "lt_core (f (udpTransports s ! k)) = lt_core (udpTransports s ! k) \<Longrightarrow>
     same_core s (upd_transport k f s)"
proof (cases "k < length (udpTransports s)")
  case True
  assume "lt_core (f (udpTransports s ! k)) = lt_core (udpTransports s ! k)"
  with True show ?thesis by (simp add: same_core_def map_update list_update_same_conv)
next
  case False
  then show ?thesis by (simp add: same_core_def list_update_beyond)
qed

lemma calc_priority_Inr:
  "calc_priority t l c = Inr p \<Longrightarrow> p = 2 ^ 24 * t + 2 ^ 8 * l + (256 - c)"
  by (simp add: calc_priority_def split: if_splits)

lemma choose_default_priority_Inr:
  "choose_default_priority ty (65535 - a) vpn c = Inr p \<Longrightarrow>
     p = prio_formula (if ty = HostType then (if vpn then 0 else 126)
               else if ty = PeerReflexiveType then 110
               else if ty = ServerReflexiveType then 100 else 0) a c"
  by (auto simp: choose_default_priority_def prio_formula_def Let_def dest!: calc_priority_Inr)

lemma nth_core_mem:
  "k < length (udpTransports s) \<Longrightarrow> lt_core (udpTransports s ! k) \<in> set (map lt_core (udpTransports s))"
  by simp

lemma emitted_local_intro:
  assumes "at_pos s k a" and "iceTransport c = LocalSock (sock (udpTransports s ! k))"
    and "(ci_type (info c) = HostType
              \<and> priority (info c) = prio_formula (if lt_isVpn (udpTransports s ! k) then 0 else 126) a (component_id s)
              \<and> path c = 0)
          \<or> (ci_type (info c) = ServerReflexiveType
              \<and> priority (info c) = prio_formula 100 a (component_id s)
              \<and> path c = 0)
          \<or> (ci_type (info c) = RelayedType \<and> rh = Some (sock (udpTransports s ! k))
              \<and> priority (info c) = prio_formula 0 a (component_id s)
              \<and> ci_addr (info c) = relayedAddress (sock_obj (udpTransports s ! k))
              \<and> base (info c) = relayedAddress (sock_obj (udpTransports s ! k))
              \<and> related (info c) = serverReflexiveAddress (sock_obj (udpTransports s ! k))
              \<and> path c = 1)"
  shows "emitted_ok rh tb s c"
proof -
  from assms(1) have k: "k < length (udpTransports s)"
    and a: "a = findLocalAddr s (lt_addr (udpTransports s ! k))" by (simp_all add: at_pos_def)
  from nth_core_mem [OF k] assms(3) a
  have "emitted_local rh s c (sock (udpTransports s ! k))"
    unfolding emitted_local_def
    by (intro bexI [of _ "lt_core (udpTransports s ! k)"]) (auto simp: lt_core_def)
  with assms(2) show ?thesis by (simp add: emitted_ok_def)
qed

lemma Q_emit_store:
  assumes "same_core s s1" and "localCandidates s1 = localCandidates s" and "emitted_ok rh tb s c"
  shows "sat (Q_emit rh tb) s (Inr (storeLocalNotReduntantCandidate c s1))"
  using assms
  by (simp add: storeLocalNotReduntantCandidate_def Q_emit_def same_core_def nonred_snoc list_ex_iff)

lemma same_core_flags [simp]:
  "same_core s (upd_transport k (\<lambda>t. t\<lparr>ext_finished := b\<rparr>) s)"
  "same_core s (upd_transport k (\<lambda>t. t\<lparr>started := b\<rparr>) s)"
  "same_core s (upd_transport k (\<lambda>t. t\<lparr>stun_started := b\<rparr>) s)"
  "same_core s (upd_transport k (\<lambda>t. t\<lparr>stun_finished := b\<rparr>) s)"
  "same_core s (upd_transport k (\<lambda>t. t\<lparr>turn_finished := b\<rparr>) s)"
  "same_core s (upd_transport k (\<lambda>t. t\<lparr>extAddr := x\<rparr>) s)"
  "same_core s (upd_transport k (\<lambda>t. t\<lparr>stun_started := b, stun_finished := b', turn_finished := b''\<rparr>) s)"
  by (rule same_core_upd_transport, simp add: lt_core_def)+

lemma Q_emit_ensureExt:
  assumes "at_pos s k a"
  shows "sat (Q_emit rh tb) s (ensureExt k a s)"
proof (cases "\<not> isNull (extAddr (udpTransports s ! k)) \<and> \<not> ext_finished (udpTransports s ! k)")
  case False
  then show ?thesis by (auto simp: ensureExt_def Let_def Q_emit_def)
next
  case True
  show ?thesis
  proof (cases "choose_default_priority ServerReflexiveType (65535 - a)
                  (lt_isVpn (udpTransports s ! k)) (component_id s)")
    case (Inl e)
    with True show ?thesis by (simp add: ensureExt_def Let_def)
  next
    case (Inr p)
    from choose_default_priority_Inr [OF Inr] have p: "p = prio_formula 100 a (component_id s)" by simp
    let ?s1 = "upd_transport k (\<lambda>t. t\<lparr>ext_finished := True\<rparr>) s"
    have s1: "s\<lparr>udpTransports := (udpTransports s)[k := (udpTransports s ! k)\<lparr>ext_finished := True\<rparr>]\<rparr> = ?s1"
      by (simp add: upd_transport_def)
    have "sat (Q_emit rh tb) s (Inr (storeLocalNotReduntantCandidate c ?s1))"
      if "iceTransport c = LocalSock (sock (udpTransports s ! k))"
        and "ci_type (info c) = ServerReflexiveType" and "priority (info c) = p" and "path c = 0" for c
      by (rule Q_emit_store) (use that p assms in \<open>auto intro: emitted_local_intro\<close>)
    with True Inr show ?thesis
      unfolding ensureExt_def Let_def s1 by simp
  qed
qed

lemma Q_emit_lt_started_host:
  assumes "at_pos s k a"
  shows "sat (Q_emit rh tb) s (lt_started_host k a s)"
proof (cases "useLocal s")
  case False
  then show ?thesis by (simp add: lt_started_host_def Let_def Q_emit_def)
next
  case True
  show ?thesis
  proof (cases "choose_default_priority HostType (65535 - a)
                  (lt_isVpn (udpTransports s ! k)) (component_id s)")
    case (Inl e)
    with True show ?thesis by (simp add: lt_started_host_def Let_def)
  next
    case (Inr p)
    from choose_default_priority_Inr [OF Inr]
    have p: "p = prio_formula (if lt_isVpn (udpTransports s ! k) then 0 else 126) a (component_id s)" by simp
    have "sat (Q_emit rh tb) s (then_do (Inr (s\<lparr>localCandidates := localCandidates s @ [c]\<rparr>,
                                   [Sig_candidateAdded c])) (ensureExt k a))"
      if c: "iceTransport c = LocalSock (sock (udpTransports s ! k))"
        "ci_type (info c) = HostType" "priority (info c) = p" "path c = 0" for c
    proof (rule sat_then_do_pre [OF composable_emit])
      have "emitted_ok rh tb s c"
        by (rule emitted_local_intro [OF assms]) (use c p in auto)
      with c show "sat (Q_emit rh tb) s (Inr (s\<lparr>localCandidates := localCandidates s @ [c]\<rparr>, [Sig_candidateAdded c]))"
        by (simp add: Q_emit_def same_core_def nonred_snoc scanned_def)
    next
      fix s1 ev1 assume "Q_emit rh tb s s1 ev1"
      then have "same_core s s1" by (simp add: Q_emit_def)
      from at_pos_same_core [OF this assms] show "sat (Q_emit rh tb) s1 (ensureExt k a s1)"
        by (rule Q_emit_ensureExt)
    qed
    with True Inr show ?thesis
      unfolding lt_started_host_def Let_def by simp
  qed
qed

lemma Q_emit_lt_started_stun: "sat (Q_emit rh tb) s (lt_started_stun k s)"
  by (simp add: lt_started_stun_def Let_def Q_emit_def)

lemma Q_emit_lt_started_localFinished: "sat (Q_emit rh tb) s (lt_started_localFinished s)"
  by (simp add: lt_started_localFinished_def Q_emit_def same_core_def)

lemma Q_emit_finish_gathering: "sat (Q_emit rh tb) s (finish_gathering s)"
  by (simp add: finish_gathering_def tryGatheringComplete_def Q_emit_def same_core_def)

lemma Q_emit_pre:
  assumes "same_core s s1" and "localCandidates s1 = localCandidates s" and "sat (Q_emit rh tb) s1 r"
  shows "sat (Q_emit rh tb) s r"
  by (rule sat_pre [OF composable_emit _ assms(3)]) (use assms in \<open>simp add: Q_emit_def\<close>)

lemma find_transport_Some:
  "find_transport ts h = Some k \<Longrightarrow> k < length ts \<and> sock (ts ! k) = h"
  by (induction ts arbitrary: k) (auto split: if_splits)

lemma Q_emit_lt_started: "sat (Q_emit rh tb) s (lt_started h s)"
proof (cases "find_transport (udpTransports s) h")
  case None
  then show ?thesis by (simp add: lt_started_def)
next
  case (Some k)
  let ?s1 = "upd_transport k (\<lambda>t. t\<lparr>started := True\<rparr>) s"
  let ?a = "findLocalAddr ?s1 (lt_addr (udpTransports ?s1 ! k))"
  from find_transport_Some [OF Some] have "at_pos ?s1 k ?a" by (simp add: at_pos_def)
  then have "sat (Q_emit rh tb) ?s1 (then_do (then_do (then_do (lt_started_host k ?a ?s1) (lt_started_stun k))
                 lt_started_localFinished) finish_gathering)"
    by (intro sat_then_do [OF composable_emit] Q_emit_lt_started_host Q_emit_lt_started_stun
          Q_emit_lt_started_localFinished Q_emit_finish_gathering)
  then have "sat (Q_emit rh tb) s (then_do (then_do (then_do (lt_started_host k ?a ?s1) (lt_started_stun k))
                 lt_started_localFinished) finish_gathering)"
    by (rule Q_emit_pre [rotated 2]) simp_all
  with Some show ?thesis by (simp add: lt_started_def Let_def)
qed

lemma loop_pos_same_core:
  assumes "same_core s s'" and "loop_pos s ks la a"
  shows "loop_pos s' ks la a"
  unfolding loop_pos_def
proof
  fix i assume "i \<in> set ks"
  with assms(2) have i: "i < length (udpTransports s)"
    and e: "ta_eq (localAddress (sock_obj (udpTransports s ! i))) la
             \<longrightarrow> findLocalAddr s (lt_addr (udpTransports s ! i)) = a"
    by (simp_all add: loop_pos_def)
  from lt_core_fields [OF same_core_nth [OF assms(1) i]] same_core_length [OF assms(1)]
    same_core_findLocalAddr [OF assms(1)] i e
  show "i < length (udpTransports s')
        \<and> (ta_eq (localAddress (sock_obj (udpTransports s' ! i))) la
             \<longrightarrow> findLocalAddr s' (lt_addr (udpTransports s' ! i)) = a)"
    by simp
qed

lemma Q_emit_assign_ext_loop:
  "loop_pos s ks la a \<Longrightarrow> sat (Q_emit rh tb) s (assign_ext_loop ks la sa a s)"
proof (induction ks arbitrary: s)
  case Nil
  show ?case by (simp add: Q_emit_def)
next
  case (Cons i ks)
  let ?s1 = "upd_transport i (\<lambda>t. t\<lparr>extAddr := sa\<rparr>) s"
  from Cons.prems have rest: "loop_pos s ks la a" by (simp add: loop_pos_def)
  have rest1: "loop_pos ?s1 ks la a"
    by (rule loop_pos_same_core [OF _ rest]) simp
  show ?case
  proof (cases "isNull (extAddr (udpTransports s ! i))
                 \<and> ta_eq (localAddress (sock_obj (udpTransports s ! i))) la")
    case False
    with Cons.IH [OF rest] show ?thesis by (auto simp: Let_def)
  next
    case True
    with Cons.prems have "at_pos s i a" by (simp add: loop_pos_def at_pos_def)
    then have pos1: "at_pos ?s1 i a" by (rule at_pos_same_core [rotated]) simp
    have a: "sat (Q_emit rh tb) ?s1 (then_do (ensureExt i a ?s1) (assign_ext_loop ks la sa a))"
    proof (rule sat_then_do_pre [OF composable_emit Q_emit_ensureExt [OF pos1]])
      fix s2 ev2 assume "Q_emit rh tb ?s1 s2 ev2"
      then have "same_core ?s1 s2" by (simp add: Q_emit_def)
      from Cons.IH [OF loop_pos_same_core [OF this rest1]]
      show "sat (Q_emit rh tb) s2 (assign_ext_loop ks la sa a s2)" .
    qed
    have a': "sat (Q_emit rh tb) s (then_do (ensureExt i a ?s1) (assign_ext_loop ks la sa a))"
      by (rule Q_emit_pre [OF _ _ a]) simp_all
    have b: "sat (Q_emit rh tb) s (assign_ext_loop ks la sa a ?s1)"
      by (rule Q_emit_pre [OF _ _ Cons.IH [OF rest1]]) simp_all
    from True a' b show ?thesis by (simp add: Let_def)
  qed
qed

lemma Q_emit_emit_srflx:
  assumes "at_pos s k a"
  shows "sat (Q_emit rh tb) s (emit_srflx k a s)"
proof (cases "choose_default_priority ServerReflexiveType (65535 - a)
                  (lt_isVpn (udpTransports s ! k)) (component_id s)")
  case (Inl e)
  then show ?thesis by (simp add: emit_srflx_def Let_def)
next
  case (Inr p)
  from choose_default_priority_Inr [OF Inr] have p: "p = prio_formula 100 a (component_id s)" by simp
  have "sat (Q_emit rh tb) s (Inr (storeLocalNotReduntantCandidate c
                             (upd_transport k (\<lambda>t. t\<lparr>stun_finished := True\<rparr>) s)))"
    if "iceTransport c = LocalSock (sock (udpTransports s ! k))"
      and "ci_type (info c) = ServerReflexiveType" and "priority (info c) = p" and "path c = 0" for c
    by (rule Q_emit_store) (use that p assms in \<open>auto intro: emitted_local_intro\<close>)
  with Inr show ?thesis unfolding emit_srflx_def Let_def by simp
qed

lemma Q_emit_lt_addressesChanged_turn:
  assumes "at_pos s k a" and "rh = Some (sock (udpTransports s ! k))"
  shows "sat (Q_emit rh tb) s (lt_addressesChanged_turn k a s)"
proof (cases "isValid (relayedAddress (sock_obj (udpTransports s ! k)))
               \<and> \<not> turn_finished (udpTransports s ! k)")
  case False
  then show ?thesis by (auto simp: lt_addressesChanged_turn_def Let_def Q_emit_def)
next
  case True
  show ?thesis
  proof (cases "choose_default_priority RelayedType (65535 - a)
                  (lt_isVpn (udpTransports s ! k)) (component_id s)")
    case (Inl e)
    with True show ?thesis by (simp add: lt_addressesChanged_turn_def Let_def)
  next
    case (Inr p)
    from choose_default_priority_Inr [OF Inr] have p: "p = prio_formula 0 a (component_id s)" by simp
    have "sat (Q_emit rh tb) s (Inr (storeLocalNotReduntantCandidate c
                               (upd_transport k (\<lambda>t. t\<lparr>turn_finished := True\<rparr>) s)))"
      if "iceTransport c = LocalSock (sock (udpTransports s ! k))"
        and "ci_type (info c) = RelayedType" and "priority (info c) = p" and "path c = 1"
        and "ci_addr (info c) = relayedAddress (sock_obj (udpTransports s ! k))"
        and "base (info c) = relayedAddress (sock_obj (udpTransports s ! k))"
        and "related (info c) = serverReflexiveAddress (sock_obj (udpTransports s ! k))" for c
      by (rule Q_emit_store) (use that p assms in \<open>auto intro: emitted_local_intro\<close>)
    with True Inr show ?thesis unfolding lt_addressesChanged_turn_def Let_def by simp
  qed
qed

lemma Q_emit_lt_addressesChanged_stun:
  assumes "at_pos s k a" and "loop_pos s [0..<length (udpTransports s)]
                                 (localAddress (sock_obj (udpTransports s ! k))) a"
  shows "sat (Q_emit rh tb) s (lt_addressesChanged_stun k a s)"
proof -
  have "sat (Q_emit rh tb) s (then_do (assign_ext_loop [0..<length (udpTransports s)]
           (localAddress (sock_obj (udpTransports s ! k))) sa a s) (emit_srflx k a))" for sa
  proof (rule sat_then_do_pre [OF composable_emit Q_emit_assign_ext_loop [OF assms(2)]])
    fix s1 ev1 assume "Q_emit rh tb s s1 ev1"
    then have "same_core s s1" by (simp add: Q_emit_def)
    from at_pos_same_core [OF this assms(1)] show "sat (Q_emit rh tb) s1 (emit_srflx k a s1)"
      by (rule Q_emit_emit_srflx)
  qed
  then show ?thesis
    unfolding lt_addressesChanged_stun_def Let_def by (simp add: Q_emit_def)
qed

lemma ha_eq_sym: "ha_eq a b \<Longrightarrow> ha_eq b a"
  by (simp add: ha_eq_def)

lemma ha_eq_trans: "ha_eq a b \<Longrightarrow> ha_eq b c \<Longrightarrow> ha_eq a c"
  by (simp add: ha_eq_def)

lemma findLocalAddr_loop_ha_eq: "ha_eq a b \<Longrightarrow> findLocalAddr_loop las a n = findLocalAddr_loop las b n"
  by (induction las arbitrary: n) (auto simp: ha_eq_def)

lemma findLocalAddr_ha_eq: "ha_eq a b \<Longrightarrow> findLocalAddr s a = findLocalAddr s b"
  by (simp add: findLocalAddr_def findLocalAddr_loop_ha_eq)

lemma wellformed_loop_pos:
  assumes "wellformed s" and "k < length (udpTransports s)"
  shows "loop_pos s [0..<length (udpTransports s)] (localAddress (sock_obj (udpTransports s ! k)))
           (findLocalAddr s (lt_addr (udpTransports s ! k)))"
  unfolding loop_pos_def
proof (intro ballI conjI impI)
  fix i assume "i \<in> set [0..<length (udpTransports s)]"
  then show i: "i < length (udpTransports s)" by simp
  assume e: "ta_eq (localAddress (sock_obj (udpTransports s ! i)))
               (localAddress (sock_obj (udpTransports s ! k)))"
  from assms i have wi: "ha_eq (addr (localAddress (sock_obj (udpTransports s ! i)))) (lt_addr (udpTransports s ! i))"
    and wk: "ha_eq (addr (localAddress (sock_obj (udpTransports s ! k)))) (lt_addr (udpTransports s ! k))"
    by (simp_all add: wellformed_def)
  from e have "ha_eq (addr (localAddress (sock_obj (udpTransports s ! i))))
                 (addr (localAddress (sock_obj (udpTransports s ! k))))"
    by (simp add: ta_eq_def)
  with wi wk have "ha_eq (lt_addr (udpTransports s ! i)) (lt_addr (udpTransports s ! k))"
    by (blast intro: ha_eq_sym ha_eq_trans)
  then show "findLocalAddr s (lt_addr (udpTransports s ! i)) = findLocalAddr s (lt_addr (udpTransports s ! k))"
    by (rule findLocalAddr_ha_eq)
qed

lemma Q_emit_lt_addressesChanged:
  assumes "wellformed s"
  shows "sat (Q_emit (Some h) tb) s (lt_addressesChanged h s)"
proof (cases "find_transport (udpTransports s) h")
  case None
  then show ?thesis by (simp add: lt_addressesChanged_def)
next
  case (Some k)
  let ?a = "findLocalAddr s (lt_addr (udpTransports s ! k))"
  from find_transport_Some [OF Some] have k: "k < length (udpTransports s)"
    and h: "sock (udpTransports s ! k) = h" by simp_all
  from k have pos: "at_pos s k ?a" by (simp add: at_pos_def)
  have "sat (Q_emit (Some h) tb) s
          (then_do (then_do (lt_addressesChanged_stun k ?a s) (lt_addressesChanged_turn k ?a))
           finish_gathering)"
  proof (rule sat_then_do [OF composable_emit _ Q_emit_finish_gathering],
         rule sat_then_do_pre [OF composable_emit])
    show "sat (Q_emit (Some h) tb) s (lt_addressesChanged_stun k ?a s)"
      by (rule Q_emit_lt_addressesChanged_stun [OF pos wellformed_loop_pos [OF assms k]])
  next
    fix s1 ev1 assume "Q_emit (Some h) tb s s1 ev1"
    then have sc: "same_core s s1" by (simp add: Q_emit_def)
    from lt_core_fields [OF same_core_nth [OF sc k]] h
    have "Some h = Some (sock (udpTransports s1 ! k))" by simp
    with at_pos_same_core [OF sc pos]
    show "sat (Q_emit (Some h) tb) s1 (lt_addressesChanged_turn k ?a s1)"
      by (rule Q_emit_lt_addressesChanged_turn)
  qed
  with Some show ?thesis by (simp add: lt_addressesChanged_def Let_def)
qed

lemma wellformed_wf_core:
  "wellformed s =
     (distinct (map fst (map wf_core (udpTransports s)))
      \<and> (\<forall>(h, a, la) \<in> set (map wf_core (udpTransports s)). h < next_handle s \<and> ha_eq (addr la) a))"
  by (auto simp: wellformed_def wf_core_def comp_def)

lemma wellformed_cong:
  assumes "map wf_core (udpTransports s') = map wf_core (udpTransports s)"
    and "next_handle s \<le> next_handle s'"
  shows "wellformed s \<Longrightarrow> wellformed s'"
  unfolding wellformed_wf_core assms(1) using assms(2) by fastforce

lemma wf_core_of_lt_core: "lt_core x = lt_core y \<Longrightarrow> wf_core x = wf_core y"
  by (simp add: lt_core_def wf_core_def)

lemma map_wf_core_of_lt_core:
  "map lt_core xs = map lt_core ys \<Longrightarrow> map wf_core xs = map wf_core ys"
proof (induction xs arbitrary: ys)
  case Nil
  then show ?case by simp
next
  case (Cons x xs)
  then obtain y ys' where "ys = y # ys'" by (cases ys) auto
  with Cons show ?case by (auto dest: wf_core_of_lt_core)
qed

lemma wellformed_same_core: "same_core s s' \<Longrightarrow> wellformed s \<Longrightarrow> wellformed s'"
  by (rule wellformed_cong) (auto simp: same_core_def dest: map_wf_core_of_lt_core)

lemma composable_wf: "composable Q_wf"
  by (simp add: composable_def Q_wf_def)

lemma Q_wf_of_emit:
  assumes "wellformed s \<Longrightarrow> sat (Q_emit rh tb) s r"
  shows "sat Q_wf s r"
  using assms unfolding sat_def Q_wf_def Q_emit_def by (blast intro: wellformed_same_core)

lemma Q_emit_tt_started: "sat (Q_emit rh True) s (tt_started s)"
proof (cases "tcpTurn s")
  case None
  then show ?thesis by (simp add: tt_started_def Q_emit_def)
next
  case (Some t)
  show ?thesis
  proof (cases "choose_default_priority RelayedType (65535 - 1024) False (component_id s)")
    case (Inl e)
    with Some show ?thesis by (simp add: tt_started_def)
  next
    case (Inr p)
    from choose_default_priority_Inr [OF Inr] have p: "p = prio_formula 0 1024 (component_id s)" by simp
    have "sat (Q_emit rh True) s
            (then_do (Inr (s\<lparr>localCandidates := localCandidates s @ [c]\<rparr>, [Sig_candidateAdded c]))
               finish_gathering)"
      if c: "iceTransport c = TurnSock (tt_handle t)" "ci_type (info c) = RelayedType"
        "priority (info c) = p" "path c = 0" "ci_addr (info c) = tt_relayedAddress t"
        "base (info c) = tt_relayedAddress t" for c
    proof (rule sat_then_do [OF composable_emit _ Q_emit_finish_gathering])
      from c p Some have "emitted_ok rh True s c"
        by (simp add: emitted_ok_def emitted_turn_def)
      with c show "sat (Q_emit rh True) s (Inr (s\<lparr>localCandidates := localCandidates s @ [c]\<rparr>, [Sig_candidateAdded c]))"
        by (simp add: Q_emit_def same_core_def nonred_snoc scanned_def)
    qed
    with Some Inr show ?thesis unfolding tt_started_def Let_def by simp
  qed
qed

lemma Q_emit_addLocalPeerReflexiveCandidate:
  "sat (Q_emit rh tb) s (addLocalPeerReflexiveCandidate a b p s)"
  by (simp add: addLocalPeerReflexiveCandidate_def Let_def Q_emit_def same_core_def emitted_ok_def
           nonred_snoc scanned_def split: option.splits)

lemma Q_emit_doExt_loop:
  "\<forall>k\<in>set ks. k < length (udpTransports s) \<Longrightarrow> sat (Q_emit rh tb) s (doExt_loop ks s)"
proof (induction ks arbitrary: s)
  case Nil
  show ?case by (simp add: Q_emit_def)
next
  case (Cons k ks)
  let ?a = "findLocalAddr s (lt_addr (udpTransports s ! k))"
  from Cons.prems have pos: "at_pos s k ?a" and rest: "\<forall>k\<in>set ks. k < length (udpTransports s)"
    by (simp_all add: at_pos_def)
  have "sat (Q_emit rh tb) s (then_do (ensureExt k ?a s) (doExt_loop ks))"
  proof (rule sat_then_do_pre [OF composable_emit Q_emit_ensureExt [OF pos]])
    fix s1 ev1 assume "Q_emit rh tb s s1 ev1"
    then have "same_core s s1" by (simp add: Q_emit_def)
    from same_core_length [OF this] rest have "\<forall>k\<in>set ks. k < length (udpTransports s1)" by simp
    then show "sat (Q_emit rh tb) s1 (doExt_loop ks s1)" by (rule Cons.IH)
  qed
  with Cons.IH [OF rest] show ?case by (simp add: Let_def)
qed

lemma Q_emit_doExt_timer: "sat (Q_emit rh tb) s (doExt_timer s)"
proof -
  let ?s1 = "s\<lparr>ext_timers := ext_timers s - 1\<rparr>"
  have "sat (Q_emit rh tb) ?s1 (doExt_loop [0..<length (udpTransports ?s1)] ?s1)"
    by (rule Q_emit_doExt_loop) simp
  then have "sat (Q_emit rh tb) s (doExt_loop [0..<length (udpTransports ?s1)] ?s1)"
    by (rule Q_emit_pre [rotated 2]) (simp_all add: same_core_def)
  then show ?thesis by (simp add: doExt_timer_def Let_def Q_emit_def same_core_def)
qed

lemma wellformed_eq:
  "udpTransports s' = udpTransports s \<Longrightarrow> next_handle s' = next_handle s \<Longrightarrow>
     wellformed s \<Longrightarrow> wellformed s'"
  by (simp add: wellformed_def)

lemma removeLocalCandidates_transports:
  "removeLocalCandidates r s = (s', ev) \<Longrightarrow>
     udpTransports s' = udpTransports s \<and> next_handle s' = next_handle s \<and> tcpTurn s' = tcpTurn s"
  by (auto simp: removeLocalCandidates_def split: prod.splits)

lemma Q_wf_removeLocalCandidates: "sat Q_wf s (Inr (removeLocalCandidates r s))"
proof (cases "removeLocalCandidates r s")
  case (Pair s' ev)
  with removeLocalCandidates_transports [OF Pair] show ?thesis
    by (auto simp: Q_wf_def intro: wellformed_eq)
qed

lemma distinct_remove_nth:
  "distinct (map f xs) \<Longrightarrow> distinct (map f (take k xs @ drop (Suc k) xs))"
proof (induction xs arbitrary: k)
  case Nil
  then show ?case by simp
next
  case (Cons x xs)
  show ?case
  proof (cases k)
    case 0
    with Cons.prems show ?thesis by simp
  next
    case (Suc j)
    from Cons.prems have "f x \<notin> f ` set (take j xs @ drop (Suc j) xs)"
      by (auto dest: in_set_takeD in_set_dropD)
    with Cons.IH [of j] Cons.prems Suc show ?thesis by (simp add: image_Un)
  qed
qed

lemma wellformed_erase:
  assumes "wellformed s"
    and "udpTransports s' = take k (udpTransports s) @ drop (Suc k) (udpTransports s)"
    and "next_handle s' = next_handle s"
  shows "wellformed s'"
proof -
  have sub: "set (take k xs @ drop (Suc k) xs) \<subseteq> set xs" for xs :: "LocalTransport list"
    by (auto dest: in_set_takeD in_set_dropD)
  from assms distinct_remove_nth [of sock "udpTransports s" k] sub [of "udpTransports s"]
  show ?thesis unfolding wellformed_def by auto
qed

lemma Q_wf_eraseLocalTransport: "sat Q_wf s (Inr (eraseLocalTransport k s))"
proof (cases "removeLocalCandidates (LocalSock (sock (udpTransports s ! k))) s")
  case (Pair s1 ev)
  note same = removeLocalCandidates_transports [OF Pair]
  have "wellformed (s1\<lparr>udpTransports := take k (udpTransports s1) @ drop (Suc k) (udpTransports s1)\<rparr>)"
    if "wellformed s"
    using that by (rule wellformed_erase [of s _ k]) (simp_all add: same)
  with Pair show ?thesis by (simp add: eraseLocalTransport_def Let_def Q_wf_def)
qed

lemma Q_wf_finish_gathering: "sat Q_wf s (finish_gathering s)"
  by (auto simp: finish_gathering_def tryGatheringComplete_def Q_wf_def intro: wellformed_eq)

lemma Q_wf_finish_stopping: "sat Q_wf s (finish_stopping s)"
  by (auto simp: finish_stopping_def tryStopped_def postStop_def Q_wf_def intro: wellformed_eq)

lemma Q_wf_tt_reset: "sat Q_wf s (tt_reset s)"
  by (auto simp: tt_reset_def Q_wf_def intro: wellformed_eq)

lemma Q_wf_lt_stopped: "sat Q_wf s (lt_stopped h s)"
  unfolding lt_stopped_def
  by (simp add: sat_then_do [OF composable_wf] Q_wf_eraseLocalTransport Q_wf_finish_stopping
        Q_wf_def split: option.splits)

lemma Q_wf_upd_flag:
  "lt_core (f (udpTransports s ! k)) = lt_core (udpTransports s ! k) \<Longrightarrow>
     sat Q_wf s (Inr (upd_transport k f s, []))"
  by (auto simp: Q_wf_def dest: same_core_upd_transport wellformed_same_core)

lemma Q_wf_lt_error: "sat Q_wf s (lt_error h e s)"
proof (cases "find_transport (udpTransports s) h")
  case None
  then show ?thesis by (simp add: lt_error_def Q_wf_def)
next
  case (Some k)
  have a: "sat Q_wf s (then_do (Inr (upd_transport k (\<lambda>t. t\<lparr>stun_finished := True\<rparr>) s, [])) finish_gathering)"
    by (rule sat_then_do [OF composable_wf Q_wf_upd_flag Q_wf_finish_gathering]) (simp add: lt_core_def)
  have b: "sat Q_wf s (then_do (Inr (upd_transport k (\<lambda>t. t\<lparr>turn_finished := True\<rparr>) s, [])) finish_gathering)"
    by (rule sat_then_do [OF composable_wf Q_wf_upd_flag Q_wf_finish_gathering]) (simp add: lt_core_def)
  have c: "sat Q_wf s (then_do (Inr (eraseLocalTransport k s)) finish_gathering)"
    by (rule sat_then_do [OF composable_wf Q_wf_eraseLocalTransport Q_wf_finish_gathering])
  from a b c Some show ?thesis by (simp add: lt_error_def)
qed

lemma Q_wf_tt_stopped: "sat Q_wf s (tt_stopped s)"
  unfolding tt_stopped_def
  by (simp add: sat_then_do [OF composable_wf] Q_wf_removeLocalCandidates Q_wf_finish_stopping
        Q_wf_tt_reset Q_wf_def split: option.splits)

lemma Q_wf_tt_error: "sat Q_wf s (tt_error s)"
  unfolding tt_error_def
  by (simp add: sat_then_do [OF composable_wf] Q_wf_removeLocalCandidates Q_wf_finish_gathering
        Q_wf_tt_reset Q_wf_def split: option.splits)

lemma Q_wf_run_deferred: "sat Q_wf s (run_deferred s)"
  by (auto simp: run_deferred_def Let_def Q_wf_def tryGatheringComplete_def postStop_def
        split: list.splits deferred.splits intro: wellformed_eq)

lemma Q_wf_stop: "sat Q_wf s (stop s)"
  by (auto simp: stop_def Let_def Q_wf_def intro: wellformed_eq)

lemma Q_wf_flagPathAsLowOverhead: "sat Q_wf s (flagPathAsLowOverhead i a s)"
  by (auto simp: flagPathAsLowOverhead_def Let_def Q_wf_def split: option.splits intro: wellformed_eq)

lemma new_transport_fields:
  "sock (setup_sock s ((createLocalTransport h q la)\<lparr>borrowed := b\<rparr>)) = h"
  "lt_addr (setup_sock s ((createLocalTransport h q la)\<lparr>borrowed := b\<rparr>)) = la_addr la"
  "localAddress (sock_obj (setup_sock s ((createLocalTransport h q la)\<lparr>borrowed := b\<rparr>)))
     = \<lparr>addr = qs_localAddress q, port = qs_localPort q\<rparr>"
  by (simp_all add: setup_sock_def createLocalTransport_def Let_def)

lemma wellformed_add_transport:
  assumes "wellformed s" and "ha_eq (qs_localAddress q) (la_addr la)"
  shows "wellformed (add_transport s la q b)"
  using assms unfolding wellformed_def add_transport_def
  by (auto simp: new_transport_fields less_Suc_eq)

lemma wellformed_update_local:
  assumes "update_local bind sl s = (s', ev)" and "wellformed s"
  shows "wellformed s'"
proof (cases "localAddrs (pending s) \<noteq> [] \<and> localAddrs (config s) = []")
  case True
  with assms have "update_loop bind (localAddrs (pending s)) sl s = (s', ev)"
    by (simp add: update_local_def)
  from update_loop_rule [where P = wellformed, OF assms(2) _ this] wellformed_add_transport
  show ?thesis by simp
next
  case False
  with assms show ?thesis by (auto simp: update_local_def)
qed

lemma wf_core_assign_extAddr: "wf_core (assign_extAddr eas lt) = wf_core lt"
  by (simp add: assign_extAddr_def wf_core_def split: option.splits)

lemma wellformed_update_ext: "wellformed s \<Longrightarrow> wellformed (update_ext s)"
  by (rule wellformed_cong) (auto simp: update_ext_def Let_def wf_core_assign_extAddr)

lemma wellformed_update_tcpTurn: "wellformed s \<Longrightarrow> wellformed (fst (update_tcpTurn s))"
  by (rule wellformed_cong) (auto simp: update_tcpTurn_def)

lemma Q_wf_update: "sat Q_wf s (update bind sl s)"
  unfolding sat_def Q_wf_def
proof (intro allI impI)
  fix s' ev assume u: "update bind sl s = Inr (s', ev)" and w: "wellformed s"
  from u have ns: "\<not> stopping s" by (auto simp: update_def split: if_splits)
  obtain s1 ev1 where l: "update_local bind sl (update_stun s) = (s1, ev1)"
    by (cases "update_local bind sl (update_stun s)")
  obtain s2 ev2 where t: "update_tcpTurn (update_ext s1) = (s2, ev2)"
    by (cases "update_tcpTurn (update_ext s1)")
  from u ns l t have r: "s' = update_finish s2" by (auto simp: update_def)
  from w have "wellformed (update_stun s)"
    by (rule wellformed_eq [rotated 2]) (simp_all add: update_stun_def)
  from wellformed_update_local [OF l this] have "wellformed s1" .
  from wellformed_update_tcpTurn [OF wellformed_update_ext [OF this]] t have "wellformed s2" by simp
  then show "wellformed s'" unfolding r
    by (rule wellformed_eq [rotated 2]) (simp_all add: update_finish_def Let_def)
qed

lemma wf_core_observe:
  "wf_core (t\<lparr>sock_obj := (sock_obj t)\<lparr>serverReflexiveAddress := a, reflexiveAddressSource := b,
       relayedAddress := c, isStunAlive := d, isTurnAlive := e\<rparr>\<rparr>) = wf_core t"
  by (simp add: wf_core_def)

lemma wellformed_observe_sock:
  "wellformed s \<Longrightarrow> wellformed (observe_sock h srflx src relayed sa ta s)"
proof (rule wellformed_cong)
  show "map wf_core (udpTransports (observe_sock h srflx src relayed sa ta s)) = map wf_core (udpTransports s)"
  proof (cases "find_transport (udpTransports s) h")
    case None
    then show ?thesis by (simp add: observe_sock_def)
  next
    case (Some k)
    from find_transport_Some [OF Some] have "k < length (udpTransports s)" by simp
    with Some show ?thesis
      by (simp add: observe_sock_def map_update wf_core_observe list_update_same_conv)
  qed
  show "next_handle s \<le> next_handle (observe_sock h srflx src relayed sa ta s)"
    by (simp add: observe_sock_def split: option.splits)
qed

lemma wellformed_observe_turn: "wellformed s \<Longrightarrow> wellformed (observe_turn relayed reflx s)"
  by (rule wellformed_eq [rotated 2]) (simp_all add: observe_turn_def)

lemma Q_wf_lt_addressesChanged: "sat Q_wf s (lt_addressesChanged h s)"
  by (rule Q_wf_of_emit) (rule Q_emit_lt_addressesChanged)

lemma wellformed_step:
  assumes "wellformed s" and "step s i = Inr (s', ev)"
  shows "wellformed s'"
proof -
  have "sat Q_wf s (step s i)"
  proof (cases i)
    case (LtAddressesChanged h srflx src relayed sa ta)
    have "sat Q_wf (observe_sock h srflx src relayed sa ta s)
            (lt_addressesChanged h (observe_sock h srflx src relayed sa ta s))"
      by (rule Q_wf_lt_addressesChanged)
    with LtAddressesChanged wellformed_observe_sock [of s h srflx src relayed sa ta]
    show ?thesis by (simp add: sat_def Q_wf_def)
  next
    case (TtStarted relayed reflx)
    have "sat Q_wf (observe_turn relayed reflx s) (tt_started (observe_turn relayed reflx s))"
      by (rule Q_wf_of_emit) (rule Q_emit_tt_started)
    with TtStarted wellformed_observe_turn [of s relayed reflx]
    show ?thesis by (simp add: sat_def Q_wf_def)
  next
    case (Update bind sl)
    then show ?thesis by (simp add: Q_wf_update)
  next
    case Stop
    then show ?thesis by (simp add: Q_wf_stop)
  next
    case (FlagPathAsLowOverhead j a)
    then show ?thesis by (simp add: Q_wf_flagPathAsLowOverhead)
  next
    case (AddLocalPeerReflexiveCandidate a b p)
    then show ?thesis
      using Q_wf_of_emit [OF Q_emit_addLocalPeerReflexiveCandidate] by simp
  next
    case (LtStarted h)
    then show ?thesis using Q_wf_of_emit [OF Q_emit_lt_started] by simp
  next
    case (LtStopped h)
    then show ?thesis by (simp add: Q_wf_lt_stopped)
  next
    case (LtError h e)
    then show ?thesis by (simp add: Q_wf_lt_error)
  next
    case TtStopped
    then show ?thesis by (simp add: Q_wf_tt_stopped)
  next
    case TtError
    then show ?thesis by (simp add: Q_wf_tt_error)
  next
    case RunDeferred
    then show ?thesis by (simp add: Q_wf_run_deferred)
  next
    case RunTimer
    then show ?thesis using Q_wf_of_emit [OF Q_emit_doExt_timer] by simp
  qed (auto simp: Q_wf_def intro: wellformed_eq)
  with assms show ?thesis by (simp add: sat_def Q_wf_def)
qed

lemma wellformed_run:
  "wellformed s \<Longrightarrow> run s is = Inr (s', ev) \<Longrightarrow> wellformed s'"
proof (induction "is" arbitrary: s ev)
  case Nil
  then show ?case by simp
next
  case (Cons i "is")
  from Cons.prems(2) obtain s1 ev1 ev2 where st: "step s i = Inr (s1, ev1)"
    and r: "run s1 is = Inr (s', ev2)"
    by (auto simp: then_do_Inr)
  from Cons.IH [OF wellformed_step [OF Cons.prems(1) st] r] show ?case .
qed

lemma wellformed_newPrivate: "wellformed (newPrivate n)"
  by (simp add: wellformed_def newPrivate_def)

lemma composable_removal: "composable Q_removal"
  by (auto simp: composable_def Q_removal_def)

lemma Q_removal_removeLocalCandidates: "sat Q_removal s (Inr (removeLocalCandidates r s))"
proof (cases "removeLocalCandidates r s")
  case (Pair s' ev)
  from removeLocalCandidates_events [OF Pair] have "\<forall>e\<in>set ev. removal_effect e" by fastforce
  with Pair show ?thesis by (simp add: Q_removal_def)
qed

lemma Q_removal_eraseLocalTransport: "sat Q_removal s (Inr (eraseLocalTransport k s))"
proof (cases "removeLocalCandidates (LocalSock (sock (udpTransports s ! k))) s")
  case (Pair s1 ev)
  from removeLocalCandidates_events [OF Pair] have "\<forall>e\<in>set ev. removal_effect e" by fastforce
  with Pair show ?thesis by (auto simp: eraseLocalTransport_def Let_def Q_removal_def)
qed

lemma Q_removal_finish_gathering: "sat Q_removal s (finish_gathering s)"
  by (simp add: finish_gathering_def tryGatheringComplete_def Q_removal_def)

lemma Q_removal_finish_stopping: "sat Q_removal s (finish_stopping s)"
  by (simp add: finish_stopping_def tryStopped_def postStop_def Q_removal_def)

lemma Q_removal_tt_reset: "sat Q_removal s (tt_reset s)"
  by (simp add: tt_reset_def Q_removal_def)

lemma Q_removal_lt_stopped: "sat Q_removal s (lt_stopped h s)"
  unfolding lt_stopped_def
  by (simp add: sat_then_do [OF composable_removal] Q_removal_eraseLocalTransport
        Q_removal_finish_stopping Q_removal_def split: option.splits)

lemma Q_removal_lt_error: "sat Q_removal s (lt_error h e s)"
proof (cases "find_transport (udpTransports s) h")
  case None
  then show ?thesis by (simp add: lt_error_def Q_removal_def)
next
  case (Some k)
  have a: "sat Q_removal s (then_do (Inr (upd_transport k f s, [])) finish_gathering)" for f
    by (rule sat_then_do [OF composable_removal _ Q_removal_finish_gathering]) (simp add: Q_removal_def)
  have c: "sat Q_removal s (then_do (Inr (eraseLocalTransport k s)) finish_gathering)"
    by (rule sat_then_do [OF composable_removal Q_removal_eraseLocalTransport Q_removal_finish_gathering])
  from a c Some show ?thesis by (simp add: lt_error_def)
qed

lemma Q_removal_tt_stopped: "sat Q_removal s (tt_stopped s)"
  unfolding tt_stopped_def
  by (simp add: sat_then_do [OF composable_removal] Q_removal_removeLocalCandidates
        Q_removal_finish_stopping Q_removal_tt_reset Q_removal_def split: option.splits)

lemma Q_removal_tt_error: "sat Q_removal s (tt_error s)"
  unfolding tt_error_def
  by (simp add: sat_then_do [OF composable_removal] Q_removal_removeLocalCandidates
        Q_removal_finish_gathering Q_removal_tt_reset Q_removal_def split: option.splits)

lemma Q_removal_run_deferred: "sat Q_removal s (run_deferred s)"
  by (simp add: run_deferred_def Let_def Q_removal_def tryGatheringComplete_def postStop_def
        split: list.splits deferred.splits)

lemma stop_plain: "stop s = Inr (s', ev) \<Longrightarrow> \<forall>e\<in>set ev. plain_effect e"
  by (auto simp: stop_def Let_def split: if_splits option.splits)

lemma flagPath_effects:
  "flagPathAsLowOverhead j a s = Inr (s', ev) \<Longrightarrow> \<forall>e\<in>set ev. \<exists>r. e = Call_addChannelPeer r a"
  by (auto simp: flagPathAsLowOverhead_def Let_def split: if_splits option.splits)

text \<open>Which inputs make the engine signal a new candidate, and what that candidate is.\<close>

lemma step_emitted:
  assumes w: "wellformed s" and st: "step s i = Inr (s', ev)"
    and c: "Sig_candidateAdded c \<in> set ev"
  shows "(\<exists>h. i = LtStarted h \<and> emitted_ok None False s c)
       \<or> (\<exists>h srflx src relayed sa ta. i = LtAddressesChanged h srflx src relayed sa ta
             \<and> emitted_ok (Some h) False (observe_sock h srflx src relayed sa ta s) c)
       \<or> (\<exists>relayed reflx. i = TtStarted relayed reflx
             \<and> emitted_ok None True (observe_turn relayed reflx s) c)
       \<or> (i = RunTimer \<and> emitted_ok None False s c)
       \<or> (\<exists>a b p. i = AddLocalPeerReflexiveCandidate a b p \<and> emitted_ok None False s c)"
proof (cases i)
  case (LtStarted h)
  with st c Q_emit_lt_started [of None False s h] show ?thesis
    by (simp add: sat_def Q_emit_def)
next
  case (LtAddressesChanged h srflx src relayed sa ta)
  with st c Q_emit_lt_addressesChanged [OF wellformed_observe_sock [OF w],
                where h = h and tb = False and h1 = h and srflx1 = srflx and src1 = src
                  and relayed1 = relayed and sa1 = sa and ta1 = ta]
  show ?thesis by (simp add: sat_def Q_emit_def)
next
  case (TtStarted relayed reflx)
  with st c Q_emit_tt_started [of None "observe_turn relayed reflx s"] show ?thesis
    by (simp add: sat_def Q_emit_def)
next
  case RunTimer
  with st c Q_emit_doExt_timer [of None False s] show ?thesis
    by (simp add: sat_def Q_emit_def)
next
  case (AddLocalPeerReflexiveCandidate a b p)
  with st c Q_emit_addLocalPeerReflexiveCandidate [of None False s a b p] show ?thesis
    by (simp add: sat_def Q_emit_def)
next
  case (Update bind sl)
  with st update_untouched [of bind sl s s' ev] c show ?thesis by auto
next
  case Stop
  with st stop_plain [of s s' ev] c show ?thesis by auto
next
  case (FlagPathAsLowOverhead j a)
  with st flagPath_effects [of j a s s' ev] c show ?thesis by auto
next
  case (LtStopped h)
  with st Q_removal_lt_stopped [of s h] c show ?thesis by (auto simp: sat_def Q_removal_def)
next
  case (LtError h e)
  with st Q_removal_lt_error [of s h e] c show ?thesis by (auto simp: sat_def Q_removal_def)
next
  case TtStopped
  with st Q_removal_tt_stopped [of s] c show ?thesis by (auto simp: sat_def Q_removal_def)
next
  case TtError
  with st Q_removal_tt_error [of s] c show ?thesis by (auto simp: sat_def Q_removal_def)
next
  case RunDeferred
  with st Q_removal_run_deferred [of s] c show ?thesis by (auto simp: sat_def Q_removal_def)
qed (use st c in auto)

lemma example_gathering_reached:
  "run (newPrivate 1) [SetLocalAddresses [example_la], Update (\<lambda>a. Some 5000) None]
     = Inr (example_gathering, [Call_start 0 example_socket, Sig_debugLine ''starting transport ''])"
  by (simp add: model_defs example_defs example_gathering_def example_transport_def Let_def)


lemma example_relayed_step:
  "\<exists>s' c. step example_gathering
           (LtAddressesChanged 0 example_srflx_addr nullAddress example_relayed_addr True True)
           = Inr (s', [Sig_candidateAdded c, Sig_candidateAdded example_relayed])"
  by (simp add: model_defs example_defs example_gathering_def example_transport_def Let_def
        example_relayed_def example_relayed_addr_def example_srflx_addr_def
        lt_addressesChanged_def lt_addressesChanged_stun_def lt_addressesChanged_turn_def
        emit_srflx_def observe_sock_def storeLocalNotReduntantCandidate_def redundant_to_def
        ensureExt_def choose_default_priority_def calc_priority_def getId_loop.simps)

lemma find_transport_distinct:
  "distinct (map sock ts) \<Longrightarrow> j < length ts \<Longrightarrow> find_transport ts (sock (ts ! j)) = Some j"
proof (induction ts arbitrary: j)
  case Nil
  then show ?case by simp
next
  case (Cons t ts)
  show ?case
  proof (cases j)
    case 0
    then show ?thesis by simp
  next
    case (Suc j')
    with Cons.prems have "j' < length ts" and "sock t \<notin> sock ` set ts" by auto
    then have "sock (ts ! j') \<noteq> sock t" by (metis image_eqI nth_mem)
    with Cons.IH [of j'] Cons.prems Suc show ?thesis by simp
  qed
qed

lemma find_transport_mem:
  assumes "wellformed s" and "lt \<in> set (udpTransports s)"
  obtains k where "find_transport (udpTransports s) (sock lt) = Some k" and "udpTransports s ! k = lt"
proof -
  from assms(2) obtain j where j: "j < length (udpTransports s)" "udpTransports s ! j = lt"
    by (auto simp: in_set_conv_nth)
  from assms(1) have "distinct (map sock (udpTransports s))" by (simp add: wellformed_def)
  from find_transport_distinct [OF this j(1)] j that show thesis by simp
qed

lemma emitted_local_found:
  assumes "wellformed s" and "emitted_local rh s c h"
  obtains k where "find_transport (udpTransports s) h = Some k"
    and "(ci_type (info c) = HostType
            \<and> priority (info c) = prio_formula (if lt_isVpn (udpTransports s ! k) then 0 else 126)
                  (findLocalAddr s (lt_addr (udpTransports s ! k))) (component_id s)
            \<and> path c = 0)
       \<or> (ci_type (info c) = ServerReflexiveType
            \<and> priority (info c) = prio_formula 100
                  (findLocalAddr s (lt_addr (udpTransports s ! k))) (component_id s)
            \<and> path c = 0)
       \<or> (ci_type (info c) = RelayedType \<and> rh = Some h
            \<and> priority (info c) = prio_formula 0
                  (findLocalAddr s (lt_addr (udpTransports s ! k))) (component_id s)
            \<and> ci_addr (info c) = relayedAddress (sock_obj (udpTransports s ! k))
            \<and> base (info c) = relayedAddress (sock_obj (udpTransports s ! k))
            \<and> related (info c) = serverReflexiveAddress (sock_obj (udpTransports s ! k))
            \<and> path c = 1)"
proof -
  from assms(2) obtain lt where lt: "lt \<in> set (udpTransports s)" and h: "sock lt = h"
    and p: "(ci_type (info c) = HostType
            \<and> priority (info c) = prio_formula (if lt_isVpn lt then 0 else 126)
                  (findLocalAddr s (lt_addr lt)) (component_id s)
            \<and> path c = 0)
       \<or> (ci_type (info c) = ServerReflexiveType
            \<and> priority (info c) = prio_formula 100 (findLocalAddr s (lt_addr lt)) (component_id s)
            \<and> path c = 0)
       \<or> (ci_type (info c) = RelayedType \<and> rh = Some h
            \<and> priority (info c) = prio_formula 0 (findLocalAddr s (lt_addr lt)) (component_id s)
            \<and> ci_addr (info c) = relayedAddress (sock_obj lt)
            \<and> base (info c) = relayedAddress (sock_obj lt)
            \<and> related (info c) = serverReflexiveAddress (sock_obj lt)
            \<and> path c = 1)"
    unfolding emitted_local_def lt_core_def by auto
  from find_transport_mem [OF assms(1) lt] obtain k
    where "find_transport (udpTransports s) (sock lt) = Some k" and "udpTransports s ! k = lt"
    by blast
  with h p that show thesis by simp
qed

lemma find_transport_cong:
  "map sock xs = map sock ys \<Longrightarrow> find_transport xs h = find_transport ys h"
proof (induction xs arbitrary: ys)
  case Nil
  then show ?case by simp
next
  case (Cons x xs)
  then obtain y ys' where "ys = y # ys'" by (cases ys) auto
  with Cons show ?case by auto
qed

lemma observe_sock_view:
  "component_id (observe_sock h srflx src relayed sa ta s) = component_id s"
  "findLocalAddr (observe_sock h srflx src relayed sa ta s) a = findLocalAddr s a"
  "length (udpTransports (observe_sock h srflx src relayed sa ta s)) = length (udpTransports s)"
  by (simp_all add: observe_sock_def findLocalAddr_def split: option.splits)

lemma observe_sock_nth:
  "sock (udpTransports (observe_sock h srflx src relayed sa ta s) ! j) = sock (udpTransports s ! j)"
  "lt_addr (udpTransports (observe_sock h srflx src relayed sa ta s) ! j) = lt_addr (udpTransports s ! j)"
  "lt_isVpn (udpTransports (observe_sock h srflx src relayed sa ta s) ! j) = lt_isVpn (udpTransports s ! j)"
proof -
  have "sock (udpTransports (observe_sock h srflx src relayed sa ta s) ! j) = sock (udpTransports s ! j)
     \<and> lt_addr (udpTransports (observe_sock h srflx src relayed sa ta s) ! j) = lt_addr (udpTransports s ! j)
     \<and> lt_isVpn (udpTransports (observe_sock h srflx src relayed sa ta s) ! j) = lt_isVpn (udpTransports s ! j)"
  proof (cases "find_transport (udpTransports s) h")
    case None
    then show ?thesis by (simp add: observe_sock_def)
  next
    case (Some k)
    from find_transport_Some [OF Some] have "k < length (udpTransports s)" by simp
    with Some show ?thesis
      by (cases "j = k") (simp_all add: observe_sock_def)
  qed
  then show
    "sock (udpTransports (observe_sock h srflx src relayed sa ta s) ! j) = sock (udpTransports s ! j)"
    "lt_addr (udpTransports (observe_sock h srflx src relayed sa ta s) ! j) = lt_addr (udpTransports s ! j)"
    "lt_isVpn (udpTransports (observe_sock h srflx src relayed sa ta s) ! j) = lt_isVpn (udpTransports s ! j)"
    by simp_all
qed

lemma observe_sock_find:
  "find_transport (udpTransports (observe_sock h srflx src relayed sa ta s)) h'
     = find_transport (udpTransports s) h'"
  by (rule find_transport_cong) (simp add: list_eq_iff_nth_eq observe_sock_view observe_sock_nth)

lemma observe_sock_shown:
  assumes "find_transport (udpTransports s) h = Some k"
  shows "relayedAddress (sock_obj (udpTransports (observe_sock h srflx src relayed sa ta s) ! k)) = relayed"
    and "serverReflexiveAddress (sock_obj (udpTransports (observe_sock h srflx src relayed sa ta s) ! k)) = srflx"
  using assms find_transport_Some [OF assms] by (simp_all add: observe_sock_def)




text \<open>
  C6. A Relayed candidate that the engine signals for a local (UDP) transport is signalled
  when that transport reports \<^verbatim>\<open>addressesChanged\<close>; its address and its base are the
  relayed address the transport shows, its related address is the server reflexive
  address the transport shows, and its path is 1. A Relayed candidate for the TCP TURN
  transport is signalled when that transport reports \<^verbatim>\<open>started\<close>; its address and its base
  are the relayed address of that transport and its path is 0.
\<close>

theorem relayed_candidate_base_and_path:
  assumes "run (newPrivate n) is = Inr (s, ev0)" and "step s i = Inr (s', ev)"
    and "Sig_candidateAdded c \<in> set ev" and "ci_type (info c) = RelayedType"
  shows "(\<exists>h srflx src relayed sa ta.
            i = LtAddressesChanged h srflx src relayed sa ta \<and> iceTransport c = LocalSock h
            \<and> ci_addr (info c) = relayed \<and> base (info c) = relayed
            \<and> related (info c) = srflx \<and> path c = 1)
       \<or> (\<exists>relayed reflx t.
            i = TtStarted relayed reflx \<and> tcpTurn s = Some t
            \<and> iceTransport c = TurnSock (tt_handle t)
            \<and> ci_addr (info c) = relayed \<and> base (info c) = relayed \<and> path c = 0)"
proof -
  from wellformed_run [OF wellformed_newPrivate assms(1)] have w: "wellformed s" .
  have none: False if "emitted_ok None False s0 c" for s0
    using that assms(4)
    by (auto simp: emitted_ok_def emitted_local_def split: IceTransportRef.splits)
  from step_emitted [OF w assms(2,3)] none consider
      (changed) h srflx src relayed sa ta where "i = LtAddressesChanged h srflx src relayed sa ta"
        and "emitted_ok (Some h) False (observe_sock h srflx src relayed sa ta s) c"
    | (turn) relayed reflx where "i = TtStarted relayed reflx"
        and "emitted_ok None True (observe_turn relayed reflx s) c"
    by blast
  then show ?thesis
  proof cases
    case changed
    let ?o = "observe_sock h srflx src relayed sa ta s"
    show ?thesis
    proof (cases "iceTransport c")
      case (TurnSock h')
      with changed(2) assms(4) show ?thesis by (simp add: emitted_ok_def)
    next
      case (LocalSock h')
      with changed(2) assms(4) have "emitted_local (Some h) ?o c h'" by (simp add: emitted_ok_def)
      from emitted_local_found [OF wellformed_observe_sock [OF w] this] assms(4)
      obtain k where f: "find_transport (udpTransports ?o) h' = Some k" and hh: "h = h'"
        and v: "ci_addr (info c) = relayedAddress (sock_obj (udpTransports ?o ! k))"
          "base (info c) = relayedAddress (sock_obj (udpTransports ?o ! k))"
          "related (info c) = serverReflexiveAddress (sock_obj (udpTransports ?o ! k))"
          "path c = 1"
        by auto
      from f hh have "find_transport (udpTransports s) h = Some k" by (simp add: observe_sock_find)
      from observe_sock_shown [OF this] v changed(1) LocalSock hh show ?thesis by simp
    qed
  next
    case turn
    show ?thesis
    proof (cases "iceTransport c")
      case (LocalSock h')
      with turn(2) assms(4) show ?thesis
        by (auto simp: emitted_ok_def emitted_local_def)
    next
      case (TurnSock h')
      with turn(2) assms(4) have "emitted_turn (observe_turn relayed reflx s) c h'"
        by (simp add: emitted_ok_def)
      with turn(1) TurnSock show ?thesis
        by (auto simp: emitted_turn_def observe_turn_def)
    qed
  qed
qed

theorem relayed_candidate_base_and_path_witness:
  "run (newPrivate 1) [SetLocalAddresses [example_la], Update (\<lambda>a. Some 5000) None]
     = Inr (example_gathering, [Call_start 0 example_socket, Sig_debugLine ''starting transport ''])
   \<and> (\<exists>s' c. step example_gathering
           (LtAddressesChanged 0 example_srflx_addr nullAddress example_relayed_addr True True)
           = Inr (s', [Sig_candidateAdded c, Sig_candidateAdded example_relayed]))
   \<and> ci_type (info example_relayed) = RelayedType
   \<and> iceTransport example_relayed = LocalSock 0
   \<and> ci_addr (info example_relayed) = example_relayed_addr
   \<and> base (info example_relayed) = example_relayed_addr
   \<and> related (info example_relayed) = example_srflx_addr
   \<and> path example_relayed = 1"
proof -
  note r = example_gathering_reached
  from example_relayed_step obtain s' c where st: "step example_gathering
           (LtAddressesChanged 0 example_srflx_addr nullAddress example_relayed_addr True True)
           = Inr (s', [Sig_candidateAdded c, Sig_candidateAdded example_relayed])" by blast
  have t: "ci_type (info example_relayed) = RelayedType" by (simp add: example_relayed_def)
  have m: "Sig_candidateAdded example_relayed
             \<in> set [Sig_candidateAdded c, Sig_candidateAdded example_relayed]"
    by simp
  have v: "iceTransport example_relayed = LocalSock 0"
    "ci_addr (info example_relayed) = example_relayed_addr"
    "base (info example_relayed) = example_relayed_addr"
    "related (info example_relayed) = example_srflx_addr"
    "path example_relayed = 1"
    by (simp_all add: example_relayed_def)
  from relayed_candidate_base_and_path [OF r st m t] r example_relayed_step t v
  show ?thesis by blast
qed

lemma composable_same: "composable Q_same"
  by (auto simp: composable_def Q_same_def)

lemma removeLocalCandidates_loop_result:
  "removeLocalCandidates_loop r cs ch = (cs', ch', ev) \<Longrightarrow>
     cs' = filter (\<lambda>c. iceTransport c \<noteq> r) cs
     \<and> (\<forall>j. ch' j = (if \<exists>c\<in>set cs. iceTransport c = r \<and> c_id c = j then None else ch j))
     \<and> ev = map Sig_candidateRemoved (filter (\<lambda>c. iceTransport c = r) cs)"
proof (induction cs arbitrary: ch cs' ch' ev)
  case Nil
  then show ?case by simp
next
  case (Cons c cs)
  show ?case
  proof (cases "iceTransport c = r")
    case True
    with Cons.prems obtain cs1 ev1 where
      l: "removeLocalCandidates_loop r cs (ch(c_id c := None)) = (cs1, ch', ev1)"
      and e: "cs' = cs1" "ev = Sig_candidateRemoved c # ev1"
      by (auto split: prod.splits)
    from Cons.IH [OF l] e True show ?thesis by auto
  next
    case False
    with Cons.prems obtain cs1 where
      l: "removeLocalCandidates_loop r cs ch = (cs1, ch', ev)" and e: "cs' = c # cs1"
      by (auto split: prod.splits)
    from Cons.IH [OF l] e False show ?thesis by auto
  qed
qed

lemma chan_ok_removeLocalCandidates:
  assumes "removeLocalCandidates r s = (s', ev)"
  shows "chan_ok s s' ev"
proof -
  from assms obtain cs' ch' where
    l: "removeLocalCandidates_loop r (localCandidates s) (channelPeers s) = (cs', ch', ev)"
    and s': "localCandidates s' = cs'" "channelPeers s' = ch'"
    by (auto simp: removeLocalCandidates_def split: prod.splits)
  from removeLocalCandidates_loop_result [OF l] s'
  have a: "localCandidates s' = filter (\<lambda>c. iceTransport c \<noteq> r) (localCandidates s)"
    and b: "\<And>j. channelPeers s' j
              = (if \<exists>c\<in>set (localCandidates s). iceTransport c = r \<and> c_id c = j
                 then None else channelPeers s j)"
    and c: "ev = map Sig_candidateRemoved (filter (\<lambda>c. iceTransport c = r) (localCandidates s))"
    by simp_all
  show ?thesis
    unfolding chan_ok_def
  proof (intro conjI allI ballI impI)
    fix r' a show "Call_addChannelPeer r' a \<notin> set ev" unfolding c by auto
  next
    fix x assume "x \<in> set (localCandidates s)" "x \<notin> set (localCandidates s')"
    then have "iceTransport x = r" unfolding a by simp
    with \<open>x \<in> set (localCandidates s)\<close> show "channelPeers s' (c_id x) = None"
      unfolding b by auto
  next
    fix j assume d: "channelPeers s' j \<noteq> channelPeers s j"
    then show "channelPeers s' j = None" unfolding b by (auto split: if_splits)
    from d obtain x where "x \<in> set (localCandidates s)" "iceTransport x = r" "c_id x = j"
      unfolding b by (auto split: if_splits)
    then show "\<exists>c\<in>set (localCandidates s). c_id c = j \<and> c \<notin> set (localCandidates s')"
      unfolding a by auto
  qed
qed

lemma chan_ok_then_same:
  "chan_ok s s1 ev1 \<Longrightarrow> Q_same s1 s2 ev2 \<Longrightarrow> chan_ok s s2 (ev1 @ ev2)"
proof -
  assume a: "chan_ok s s1 ev1" and b: "Q_same s1 s2 ev2"
  from b have e: "channelPeers s2 = channelPeers s1" "localCandidates s2 = localCandidates s1"
    and r: "\<forall>e\<in>set ev2. removal_effect e" by (simp_all add: Q_same_def)
  from r have "\<forall>r a. Call_addChannelPeer r a \<notin> set ev2" by fastforce
  with a show ?thesis unfolding chan_ok_def e by simp
qed

lemma chan_ok_keep:
  assumes "channelPeers s' = channelPeers s" and "set (localCandidates s) \<subseteq> set (localCandidates s')"
    and "\<forall>r a. Call_addChannelPeer r a \<notin> set ev"
  shows "chan_ok s s' ev"
  using assms unfolding chan_ok_def by auto

lemma sat_chan_ok_of_emit:
  assumes "sat (Q_emit rh tb) s r"
  shows "sat chan_ok s r"
  unfolding sat_def
proof (intro allI impI)
  fix s' ev assume "r = Inr (s', ev)"
  with assms have q: "Q_emit rh tb s s' ev" by (simp add: sat_def)
  then have "channelPeers s' = channelPeers s" by (simp add: Q_emit_def same_core_def)
  moreover from q have "set (localCandidates s) \<subseteq> set (localCandidates s')"
    by (auto simp: Q_emit_def)
  moreover from q have "\<forall>e\<in>set ev. emit_effect e" by (simp add: Q_emit_def)
  then have "\<forall>r a. Call_addChannelPeer r a \<notin> set ev" by fastforce
  ultimately show "chan_ok s s' ev" by (rule chan_ok_keep)
qed

lemma Q_same_finish_gathering: "sat Q_same s (finish_gathering s)"
  by (simp add: finish_gathering_def tryGatheringComplete_def Q_same_def)

lemma Q_same_finish_stopping: "sat Q_same s (finish_stopping s)"
  by (simp add: finish_stopping_def tryStopped_def postStop_def Q_same_def)

lemma Q_same_tt_reset: "sat Q_same s (tt_reset s)"
  by (simp add: tt_reset_def Q_same_def)

lemma sat_chan_ok_then_same:
  assumes "chan_ok s s1 ev1" and "sat Q_same s1 (f s1)"
  shows "sat chan_ok s (then_do (Inr (s1, ev1)) f)"
  using assms unfolding sat_def then_do_Inr by (auto intro: chan_ok_then_same)

lemma chan_ok_eraseLocalTransport:
  assumes "eraseLocalTransport k s = (s', ev)"
  shows "chan_ok s s' ev"
proof -
  obtain s1 ev1 where r: "removeLocalCandidates (LocalSock (sock (udpTransports s ! k))) s = (s1, ev1)"
    by (cases "removeLocalCandidates (LocalSock (sock (udpTransports s ! k))) s")
  from chan_ok_removeLocalCandidates [OF r] have c: "chan_ok s s1 ev1" .
  from assms r have s': "channelPeers s' = channelPeers s1" "localCandidates s' = localCandidates s1"
    and ev: "ev = Sig_debugLine ''Stopping local transport: '' # ev1
                  @ (if borrowed (udpTransports s ! k) then [Call_returnSockets (qsock (udpTransports s ! k))] else [])"
    by (auto simp: eraseLocalTransport_def Let_def)
  from c show ?thesis unfolding chan_ok_def s' ev by auto
qed

lemma sat_chan_ok_same:
  assumes "sat Q_same s r"
  shows "sat chan_ok s r"
  using assms unfolding sat_def Q_same_def
  by (fastforce intro: chan_ok_keep)

lemma chan_ok_lt_stopped: "sat chan_ok s (lt_stopped h s)"
proof (cases "find_transport (udpTransports s) h")
  case None
  then show ?thesis by (simp add: lt_stopped_def chan_ok_def)
next
  case (Some k)
  obtain s1 ev1 where e: "eraseLocalTransport k s = (s1, ev1)" by (cases "eraseLocalTransport k s")
  from sat_chan_ok_then_same [where f = finish_stopping, OF chan_ok_eraseLocalTransport [OF e]
         Q_same_finish_stopping] Some e
  show ?thesis by (simp add: lt_stopped_def)
qed

lemma chan_ok_lt_error: "sat chan_ok s (lt_error h e s)"
proof (cases "find_transport (udpTransports s) h")
  case None
  then show ?thesis by (simp add: lt_error_def chan_ok_def)
next
  case (Some k)
  have a: "sat chan_ok s (then_do (Inr (upd_transport k f s, [])) finish_gathering)" for f
    by (rule sat_chan_ok_then_same [where f = finish_gathering, OF _ Q_same_finish_gathering])
       (simp add: chan_ok_def)
  obtain s1 ev1 where e: "eraseLocalTransport k s = (s1, ev1)" by (cases "eraseLocalTransport k s")
  from sat_chan_ok_then_same [where f = finish_gathering, OF chan_ok_eraseLocalTransport [OF e]
         Q_same_finish_gathering] e
  have c: "sat chan_ok s (then_do (Inr (eraseLocalTransport k s)) finish_gathering)" by simp
  from a c Some show ?thesis by (simp add: lt_error_def)
qed

lemma chan_ok_tt:
  assumes "\<And>s1. sat Q_same s1 (f s1)"
  shows "sat chan_ok s (then_do (then_do (Inr (removeLocalCandidates r s)) tt_reset) f)"
proof -
  obtain s1 ev1 where e: "removeLocalCandidates r s = (s1, ev1)" by (cases "removeLocalCandidates r s")
  have "sat Q_same s1 (then_do (tt_reset s1) f)"
    by (rule sat_then_do [OF composable_same Q_same_tt_reset assms])
  from sat_chan_ok_then_same [where f = "\<lambda>s. then_do (tt_reset s) f",
         OF chan_ok_removeLocalCandidates [OF e] this]
  have "sat chan_ok s (then_do (Inr (s1, ev1)) (\<lambda>s. then_do (tt_reset s) f))" .
  moreover have "then_do (then_do (Inr (s1, ev1)) tt_reset) f = then_do (Inr (s1, ev1)) (\<lambda>s. then_do (tt_reset s) f)"
    by (simp add: then_do_def tt_reset_def split: sum.splits prod.splits)
  ultimately show ?thesis using e by simp
qed

lemma chan_ok_tt_stopped: "sat chan_ok s (tt_stopped s)"
  using chan_ok_tt [where f = finish_stopping, OF Q_same_finish_stopping]
  by (simp add: tt_stopped_def chan_ok_def split: option.splits)

lemma chan_ok_tt_error: "sat chan_ok s (tt_error s)"
  using chan_ok_tt [where f = finish_gathering, OF Q_same_finish_gathering]
  by (simp add: tt_error_def chan_ok_def split: option.splits)

lemma chan_ok_run_deferred: "sat chan_ok s (run_deferred s)"
  by (rule sat_chan_ok_same)
     (simp add: run_deferred_def Let_def Q_same_def tryGatheringComplete_def postStop_def
        split: list.splits deferred.splits)

lemma chan_ok_stop: "sat chan_ok s (stop s)"
  unfolding sat_def
proof (intro allI impI)
  fix s' ev assume a: "stop s = Inr (s', ev)"
  from stop_plain [OF a] have "\<forall>r a. Call_addChannelPeer r a \<notin> set ev" by fastforce
  moreover from a have "channelPeers s' = channelPeers s" "localCandidates s' = localCandidates s"
    by (auto simp: stop_def Let_def split: if_splits)
  ultimately show "chan_ok s s' ev" by (simp add: chan_ok_keep)
qed

lemma chan_ok_update: "sat chan_ok s (update bind sl s)"
  unfolding sat_def
proof (intro allI impI)
  fix s' ev assume "update bind sl s = Inr (s', ev)"
  from update_untouched [OF this] have u: "untouched s s'" and p: "\<forall>e\<in>set ev. plain_effect e"
    by simp_all
  from p have "\<forall>r a. Call_addChannelPeer r a \<notin> set ev" by fastforce
  with u show "chan_ok s s' ev" by (simp add: chan_ok_keep untouched_def)
qed

lemma ta_eq_refl: "ta_eq a a"
  by (simp add: ta_eq_def ha_eq_def)

lemma flagPathAsLowOverhead_result:
  assumes "flagPathAsLowOverhead j a s = Inr (s', ev)"
  shows "\<exists>c. find (\<lambda>c. c_id c = j) (localCandidates s) = Some c
            \<and> localCandidates s' = localCandidates s
            \<and> (\<forall>k. k \<noteq> j \<longrightarrow> channelPeers s' k = channelPeers s k)
            \<and> (if list_ex (\<lambda>x. ta_eq x a) (case channelPeers s j of None \<Rightarrow> [] | Some l \<Rightarrow> l)
                then s' = s \<and> ev = []
                else channelPeers s' j
                       = Some ((case channelPeers s j of None \<Rightarrow> [] | Some l \<Rightarrow> l) @ [a])
                     \<and> ev = [Call_addChannelPeer (iceTransport c) a])
            \<and> flagPathAsLowOverhead j a s' = Inr (s', [])"
proof (cases "find (\<lambda>c. c_id c = j) (localCandidates s)")
  case None
  with assms show ?thesis by (simp add: flagPathAsLowOverhead_def)
next
  case (Some c)
  then have j: "c_id c = j" by (auto simp: find_Some_iff)
  show ?thesis
  proof (cases "list_ex (\<lambda>x. ta_eq x a) (case channelPeers s j of None \<Rightarrow> [] | Some l \<Rightarrow> l)")
    case True
    with assms Some j have "s' = s" "ev = []" by (simp_all add: flagPathAsLowOverhead_def Let_def)
    with assms Some True show ?thesis by simp
  next
    case False
    with assms Some j
    have s': "s' = s\<lparr>channelPeers := (channelPeers s)
                      (j \<mapsto> (case channelPeers s j of None \<Rightarrow> [] | Some l \<Rightarrow> l) @ [a])\<rparr>"
      and ev: "ev = [Call_addChannelPeer (iceTransport c) a]"
      by (simp_all add: flagPathAsLowOverhead_def Let_def)
    have again: "flagPathAsLowOverhead j a s' = Inr (s', [])"
      using Some j by (simp add: s' flagPathAsLowOverhead_def Let_def ta_eq_refl)
    from Some False ev again show ?thesis by (simp add: s')
  qed
qed

lemma chan_ok_pre:
  "chan_ok s1 s' ev \<Longrightarrow> channelPeers s1 = channelPeers s \<Longrightarrow>
     localCandidates s1 = localCandidates s \<Longrightarrow> chan_ok s s' ev"
  by (simp add: chan_ok_def)

lemma sat_chan_ok_pre:
  "sat chan_ok s1 r \<Longrightarrow> channelPeers s1 = channelPeers s \<Longrightarrow>
     localCandidates s1 = localCandidates s \<Longrightarrow> sat chan_ok s r"
  unfolding sat_def by (blast intro: chan_ok_pre)

lemma chan_ok_step:
  assumes w: "wellformed s" and nf: "\<forall>j a. i \<noteq> FlagPathAsLowOverhead j a"
  shows "sat chan_ok s (step s i)"
proof (cases i)
  case (FlagPathAsLowOverhead j a)
  with nf show ?thesis by simp
next
  case (LtAddressesChanged h srflx src relayed sa ta)
  let ?o = "observe_sock h srflx src relayed sa ta s"
  have "sat chan_ok ?o (lt_addressesChanged h ?o)"
    by (rule sat_chan_ok_of_emit [OF Q_emit_lt_addressesChanged [OF wellformed_observe_sock [OF w]]])
  then have "sat chan_ok s (lt_addressesChanged h ?o)"
    by (rule sat_chan_ok_pre) (simp_all add: observe_sock_def split: option.splits)
  with LtAddressesChanged show ?thesis by simp
next
  case (TtStarted relayed reflx)
  let ?o = "observe_turn relayed reflx s"
  have "sat chan_ok ?o (tt_started ?o)"
    by (rule sat_chan_ok_of_emit [OF Q_emit_tt_started])
  then have "sat chan_ok s (tt_started ?o)"
    by (rule sat_chan_ok_pre) (simp_all add: observe_turn_def)
  with TtStarted show ?thesis by simp
next
  case (Update bind sl)
  then show ?thesis by (simp add: chan_ok_update)
next
  case Stop
  then show ?thesis by (simp add: chan_ok_stop)
next
  case (AddLocalPeerReflexiveCandidate a b p)
  then show ?thesis
    using sat_chan_ok_of_emit [OF Q_emit_addLocalPeerReflexiveCandidate] by simp
next
  case (LtStarted h)
  then show ?thesis using sat_chan_ok_of_emit [OF Q_emit_lt_started] by simp
next
  case (LtStopped h)
  then show ?thesis by (simp add: chan_ok_lt_stopped)
next
  case (LtError h e)
  then show ?thesis by (simp add: chan_ok_lt_error)
next
  case TtStopped
  then show ?thesis by (simp add: chan_ok_tt_stopped)
next
  case TtError
  then show ?thesis by (simp add: chan_ok_tt_error)
next
  case RunDeferred
  then show ?thesis by (simp add: chan_ok_run_deferred)
next
  case RunTimer
  then show ?thesis using sat_chan_ok_of_emit [OF Q_emit_doExt_timer] by simp
qed (simp_all add: chan_ok_def)

text \<open>
  C9. The set of channel peers kept for a candidate id changes in two ways only.
  \<^verbatim>\<open>flagPathAsLowOverhead\<close> for the id of a live candidate and an address that the set does
  not hold yet adds the address and calls \<^verbatim>\<open>addChannelPeer\<close> once on the transport of that
  candidate; for an address that the set holds it changes nothing, so that repeating the
  call changes nothing. Every other input leaves each set as it is or deletes it, calls
  \<^verbatim>\<open>addChannelPeer\<close> never, deletes the set of every candidate that leaves the list of live
  candidates, and deletes a set only when a candidate with that id leaves the list.
\<close>

theorem channelPeers_lifecycle:
  assumes "run (newPrivate n) is = Inr (s, ev0)" and "step s i = Inr (s', ev)"
  shows "(\<forall>j a. i = FlagPathAsLowOverhead j a \<longrightarrow>
            (\<exists>c. find (\<lambda>c. c_id c = j) (localCandidates s) = Some c
               \<and> localCandidates s' = localCandidates s
               \<and> (\<forall>k. k \<noteq> j \<longrightarrow> channelPeers s' k = channelPeers s k)
               \<and> (if list_ex (\<lambda>x. ta_eq x a) (case channelPeers s j of None \<Rightarrow> [] | Some l \<Rightarrow> l)
                   then s' = s \<and> ev = []
                   else channelPeers s' j
                          = Some ((case channelPeers s j of None \<Rightarrow> [] | Some l \<Rightarrow> l) @ [a])
                        \<and> ev = [Call_addChannelPeer (iceTransport c) a])
               \<and> step s' i = Inr (s', [])))
       \<and> ((\<forall>j a. i \<noteq> FlagPathAsLowOverhead j a) \<longrightarrow>
            (\<forall>r a. Call_addChannelPeer r a \<notin> set ev)
            \<and> (\<forall>c\<in>set (localCandidates s).
                  c \<notin> set (localCandidates s') \<longrightarrow> channelPeers s' (c_id c) = None)
            \<and> (\<forall>j. channelPeers s' j \<noteq> channelPeers s j \<longrightarrow>
                  channelPeers s' j = None
                  \<and> (\<exists>c\<in>set (localCandidates s). c_id c = j \<and> c \<notin> set (localCandidates s'))))"
proof (cases "\<exists>j a. i = FlagPathAsLowOverhead j a")
  case True
  then obtain j a where i: "i = FlagPathAsLowOverhead j a" by blast
  with assms(2) have "flagPathAsLowOverhead j a s = Inr (s', ev)" by simp
  from flagPathAsLowOverhead_result [OF this] i show ?thesis by simp
next
  case False
  from wellformed_run [OF wellformed_newPrivate assms(1)] have w: "wellformed s" .
  from chan_ok_step [OF w] False assms(2) have "chan_ok s s' ev" by (simp add: sat_def)
  with False show ?thesis unfolding chan_ok_def by blast
qed

lemma run_snoc:
  "run s0 is = Inr (s1, ev1) \<Longrightarrow> step s1 i = Inr (s2, ev2) \<Longrightarrow>
     run s0 (is @ [i]) = Inr (s2, ev1 @ ev2)"
proof (induction "is" arbitrary: s0 ev1)
  case Nil
  then show ?case by (simp add: then_do_def)
next
  case (Cons j js)
  from Cons.prems(1) obtain sa eva evb where a: "step s0 j = Inr (sa, eva)"
    and b: "run sa js = Inr (s1, evb)" and c: "ev1 = eva @ evb"
    by (auto simp: then_do_Inr)
  from Cons.IH [OF b Cons.prems(2)] a c show ?case by (simp add: then_do_Inr)
qed

lemma example_hosted_reached:
  "run (newPrivate 1) [SetLocalAddresses [example_la], Update (\<lambda>a. Some 5000) None, LtStarted 0]
     = Inr (example_hosted,
            [Call_start 0 example_socket, Sig_debugLine ''starting transport '',
             Sig_candidateAdded example_host, Sig_localFinished, Sig_gatheringComplete])"
  by (simp add: model_defs example_defs example_gathering_def example_transport_def Let_def
        example_hosted_def
        lt_started_def lt_started_host_def lt_started_stun_def lt_started_localFinished_def
        ensureExt_def choose_default_priority_def calc_priority_def getId_loop.simps)

lemma example_flagged_step:
  "step example_hosted (FlagPathAsLowOverhead 0 example_peer)
     = Inr (example_flagged, [Call_addChannelPeer (LocalSock 0) example_peer])"
  by (simp add: flagPathAsLowOverhead_def example_flagged_def example_hosted_def
        example_gathering_def newPrivate_def example_host_def Let_def)

lemma example_flagged_reached:
  "run (newPrivate 1) [SetLocalAddresses [example_la], Update (\<lambda>a. Some 5000) None, LtStarted 0,
        FlagPathAsLowOverhead 0 example_peer]
     = Inr (example_flagged,
            [Call_start 0 example_socket, Sig_debugLine ''starting transport '',
             Sig_candidateAdded example_host, Sig_localFinished, Sig_gatheringComplete,
             Call_addChannelPeer (LocalSock 0) example_peer])"
proof -
  have "run (newPrivate 1) ([SetLocalAddresses [example_la], Update (\<lambda>a. Some 5000) None, LtStarted 0]
          @ [FlagPathAsLowOverhead 0 example_peer])
     = Inr (example_flagged,
            [Call_start 0 example_socket, Sig_debugLine ''starting transport '',
             Sig_candidateAdded example_host, Sig_localFinished, Sig_gatheringComplete]
            @ [Call_addChannelPeer (LocalSock 0) example_peer])"
    by (rule run_snoc [OF example_hosted_reached example_flagged_step])
  then show ?thesis by simp
qed

lemma example_stopped_step:
  "\<exists>s' ev. step example_flagged (LtStopped 0) = Inr (s', ev)
       \<and> localCandidates s' = [] \<and> channelPeers s' 0 = None"
  by (simp add: lt_stopped_def eraseLocalTransport_def removeLocalCandidates_def
        finish_stopping_def tryStopped_def allStopped_def postStop_def then_do_def Let_def
        example_flagged_def example_hosted_def example_gathering_def newPrivate_def
        example_host_def example_started_def createLocalTransport_def)

theorem channelPeers_lifecycle_witness:
  "run (newPrivate 1) [SetLocalAddresses [example_la], Update (\<lambda>a. Some 5000) None, LtStarted 0]
     = Inr (example_hosted,
            [Call_start 0 example_socket, Sig_debugLine ''starting transport '',
             Sig_candidateAdded example_host, Sig_localFinished, Sig_gatheringComplete])
   \<and> step example_hosted (FlagPathAsLowOverhead 0 example_peer)
     = Inr (example_flagged, [Call_addChannelPeer (LocalSock 0) example_peer])
   \<and> step example_flagged (FlagPathAsLowOverhead 0 example_peer) = Inr (example_flagged, [])
   \<and> (\<exists>s' ev. step example_flagged (LtStopped 0) = Inr (s', ev)
         \<and> example_host \<in> set (localCandidates example_flagged)
         \<and> example_host \<notin> set (localCandidates s')
         \<and> channelPeers s' (c_id example_host) = None)"
proof -
  note flagged = channelPeers_lifecycle [OF example_hosted_reached example_flagged_step,
      THEN conjunct1, rule_format, of 0 example_peer, OF refl]
  from flagged
  have again: "step example_flagged (FlagPathAsLowOverhead 0 example_peer) = Inr (example_flagged, [])"
    by (elim exE conjE)
  from example_stopped_step obtain s' ev where st: "step example_flagged (LtStopped 0) = Inr (s', ev)"
    and gone: "localCandidates s' = []" by blast
  have mem: "example_host \<in> set (localCandidates example_flagged)"
    by (simp add: example_flagged_def example_hosted_def)
  from channelPeers_lifecycle [OF example_flagged_reached st] mem gone
  have "channelPeers s' (c_id example_host) = None" by simp
  with example_hosted_reached example_flagged_step again st mem gone show ?thesis by auto
qed





































text \<open>
  C5 (the code against the claim). \<^verbatim>\<open>lt_started\<close> calls \<^verbatim>\<open>ensureExt\<close> only inside the
  branch that forms the Host candidate. With host candidates switched off and an external
  address that matches the local address of the transport, the transport reports
  \<^verbatim>\<open>started\<close> and no candidate is signalled; the external address stays unannounced.
  With the same settings the zero-delay timer of \<^verbatim>\<open>update\<close>, which calls \<^verbatim>\<open>ensureExt\<close>
  without looking at that switch, does signal the ServerReflexive candidate when the
  external address is set after the transport has started; and \<^verbatim>\<open>lt_addressesChanged\<close>,
  which hands the discovered reflexive ip to the transport as its external address, calls
  \<^verbatim>\<open>ensureExt\<close> without looking at the switch either and signals the candidate made
  from it before the discovered one. With host candidates in use the candidate is
  signalled on \<^verbatim>\<open>started\<close>, after the Host candidate.
\<close>

theorem external_candidate_withheld_without_useLocal:
  "run (newPrivate 1) [SetUseLocal False, SetLocalAddresses [example_la],
        SetExternalAddresses [example_ea], Update example_bind None]
     = Inr (example_mapped\<lparr>useLocal := False\<rparr>,
            [Call_start 0 example_socket, Sig_debugLine ''starting transport ''])
   \<and> ext_matches (localAddress (sock_obj (udpTransports (example_mapped\<lparr>useLocal := False\<rparr>) ! 0)))
         example_ea
   \<and> map_sum id (\<lambda>r. (map ext_finished (udpTransports (fst r)), snd r))
        (step (example_mapped\<lparr>useLocal := False\<rparr>) (LtStarted 0))
     = Inr ([False], [Sig_localFinished, Sig_gatheringComplete])
   \<and> map_sum id snd
        (run (newPrivate 1) [SetUseLocal False, SetLocalAddresses [example_la],
           Update example_bind None, LtStarted 0,
           SetExternalAddresses [example_ea], Update example_bind None, RunTimer])
     = Inr [Call_start 0 example_socket, Sig_debugLine ''starting transport '',
            Sig_localFinished, Sig_gatheringComplete,
            Sig_candidateAdded (example_ext_srflx\<lparr>c_id := 0\<rparr>)]
   \<and> map_sum id (\<lambda>r. map (\<lambda>c. (ci_type (info c), ci_addr (info c), base (info c), path c))
                         (added_candidates (snd r)))
        (run (newPrivate 1) [SetUseLocal False, SetLocalAddresses [example_la],
           SetStunBindService example_stun_a, Update example_bind None, LtStarted 0,
           LtAddressesChanged 0 example_srflx_addr (addr example_stun_a) invalidAddress True True])
     = Inr [(ServerReflexiveType, \<lparr>addr = addr example_srflx_addr, port = 5000\<rparr>,
               \<lparr>addr = la_addr example_la, port = 5000\<rparr>, 0),
            (ServerReflexiveType, example_srflx_addr,
               \<lparr>addr = la_addr example_la, port = 5000\<rparr>, 0)]
   \<and> map_sum id snd (step example_mapped (LtStarted 0))
     = Inr [Sig_candidateAdded example_host, Sig_candidateAdded example_ext_srflx,
            Sig_localFinished, Sig_gatheringComplete]"
  by (simp add: model_defs example_defs example_mapped_def example_transport_def example_ea_def
        example_bind_def example_ext_srflx_def ext_matches_def assign_extAddr_def needs_doExt_def
        example_srflx_addr_def
        Let_def lt_started_def lt_started_host_def lt_started_stun_def lt_started_localFinished_def
        lt_addressesChanged_def lt_addressesChanged_stun_def lt_addressesChanged_turn_def
        emit_srflx_def observe_sock_def
        doExt_timer_def ensureExt_def storeLocalNotReduntantCandidate_def redundant_to_def
        choose_default_priority_def calc_priority_def getId_loop.simps)

end
